theory Spec2Isabelle
  imports Complex_Main
begin

section \<open>Conventions of the embedding\<close>

text \<open>
  The development embeds \<^verbatim>\<open>src/codes/disjoint_weighted.py\<close>. NumPy arrays of
  float64 are lists of reals: rounding, overflow and underflow are not modelled, so every
  statement below is about exact arithmetic. Where NumPy would divide by zero and continue
  with \<^verbatim>\<open>inf\<close> or \<^verbatim>\<open>nan\<close> (a warning, not an exception), the model
  stops with \<open>NonFinite\<close>, because the value is not a real number. Exceptions of the
  source are values of type \<open>error\<close>; an \<^verbatim>\<open>assert\<close> that fails carries the check
  it belongs to. The statements that only draw (calls into \<^verbatim>\<open>matplotlib\<close>) are
  represented by a parameter \<open>plot\<close> of the functions that draw: it receives what is drawn
  and may raise.
\<close>

datatype check = Sorted | Disjoint | PositiveWeights | Staggered

datatype error =
    AssertionError check
  | IndexError
  | ValueError
  | ZeroDivisionError
  | NameError
  | NonFinite

text \<open>
  Arrays that the caller passes live in a heap, since the source updates arrays in place
  (\<^verbatim>\<open>w[j] /= wtot\<close>). The caller's arrays are at the addresses \<open>Caller i\<close>; arrays that
  a function allocates itself (\<^verbatim>\<open>np.ones\<close>) are at the addresses \<open>Fresh i\<close>.
\<close>

datatype addr = Caller nat | Fresh nat

type_synonym heap = "addr \<Rightarrow> real list"

section \<open>Helpers of \<^verbatim>\<open>cumulative\<close>\<close>

text \<open>
  \<^verbatim>\<open>mergesorted(a, b)\<close>, lines 93-124. The loop over \<^verbatim>\<open>k\<close> consumes one entry of
  \<^verbatim>\<open>a\<close> or \<^verbatim>\<open>b\<close> per step; \<open>ia\<close> and \<open>ib\<close> are the two read positions and the
  list arguments are the parts of \<^verbatim>\<open>a\<close> and \<^verbatim>\<open>b\<close> not yet consumed. Each entry of
  the result is \<open>(c[k], d[k], e[k])\<close>. The branches are in the order of the source:
  \<^verbatim>\<open>a\<close> exhausted, \<^verbatim>\<open>b\<close> exhausted, \<^verbatim>\<open>a[ia] < b[ib]\<close>, otherwise.
\<close>

fun mergesorted_loop :: "nat \<Rightarrow> nat \<Rightarrow> real list \<Rightarrow> real list \<Rightarrow> (real \<times> nat \<times> nat) list" where
  "mergesorted_loop ia ib [] [] = []"
| "mergesorted_loop ia ib [] (y # ys) = (y, 1, ib) # mergesorted_loop ia (Suc ib) [] ys"
| "mergesorted_loop ia ib (x # xs) [] = (x, 0, ia) # mergesorted_loop (Suc ia) ib xs []"
| "mergesorted_loop ia ib (x # xs) (y # ys) =
     (if x < y then (x, 0, ia) # mergesorted_loop (Suc ia) ib xs (y # ys)
      else (y, 1, ib) # mergesorted_loop ia (Suc ib) (x # xs) ys)"

definition mergesorted :: "real list \<Rightarrow> real list \<Rightarrow> real list \<times> nat list \<times> nat list" where
  "mergesorted a b =
     (let m = mergesorted_loop 0 0 a b
      in (map fst m, map (\<lambda>x. fst (snd x)) m, map (\<lambda>x. snd (snd x)) m))"

text \<open>
  \<^verbatim>\<open>binvalues(a, d, e, key, w)\<close>, lines 126-147; \<open>wk\<close> is \<^verbatim>\<open>w[key]\<close>. The state of
  the loop is \<^verbatim>\<open>winbin\<close> and the Python list \<^verbatim>\<open>b\<close>, whose last entry is the bin
  being filled. The loop runs over the positions of \<^verbatim>\<open>d\<close>, reading \<^verbatim>\<open>d[k]\<close> and
  \<^verbatim>\<open>e[k]\<close> (the two arrays have the same size).
\<close>

fun binvalues_loop ::
  "real list \<Rightarrow> nat \<Rightarrow> real list \<Rightarrow> (nat \<times> nat) list \<Rightarrow> real \<Rightarrow> real list \<Rightarrow> error + (real \<times> real list)" where
  "binvalues_loop a key wk [] winbin b = Inr (winbin, b)"
| "binvalues_loop a key wk ((dk, ek) # de) winbin b =
     (if dk = key then
        (if ek < length wk \<and> ek < length a then
           binvalues_loop a key wk de (winbin + wk ! ek)
             (butlast b @ [last b + a ! ek * wk ! ek])
         else Inl IndexError)
      else if winbin > 0 then
        binvalues_loop a key wk de 0 (butlast b @ [last b / winbin, 0])
      else binvalues_loop a key wk de winbin b)"

definition binvalues :: "real list \<Rightarrow> nat list \<Rightarrow> nat list \<Rightarrow> nat \<Rightarrow> real list \<Rightarrow> error + real list" where
  "binvalues a d e key wk =
     (case binvalues_loop a key wk (zip d e) 0 [0] of
        Inl err \<Rightarrow> Inl err
      | Inr (winbin, b) \<Rightarrow>
          if d = [] then Inl IndexError
          else if last d = key then
            (if winbin = 0 then Inl NonFinite else Inr (butlast b @ [last b / winbin]))
          else Inr (butlast b))"

text \<open>
  \<^verbatim>\<open>aggvalues(a, d, e, key)\<close>, lines 149-169: the same loop with a count
  \<^verbatim>\<open>inbin\<close> in place of the weight.
\<close>

fun aggvalues_loop ::
  "real list \<Rightarrow> nat \<Rightarrow> (nat \<times> nat) list \<Rightarrow> nat \<Rightarrow> real list \<Rightarrow> error + (nat \<times> real list)" where
  "aggvalues_loop a key [] inbin b = Inr (inbin, b)"
| "aggvalues_loop a key ((dk, ek) # de) inbin b =
     (if dk = key then
        (if ek < length a then
           aggvalues_loop a key de (inbin + 1) (butlast b @ [last b + a ! ek])
         else Inl IndexError)
      else if inbin > 0 then
        aggvalues_loop a key de 0 (butlast b @ [last b / real inbin, 0])
      else aggvalues_loop a key de inbin b)"

definition aggvalues :: "real list \<Rightarrow> nat list \<Rightarrow> nat list \<Rightarrow> nat \<Rightarrow> error + real list" where
  "aggvalues a d e key =
     (case aggvalues_loop a key (zip d e) 0 [0] of
        Inl err \<Rightarrow> Inl err
      | Inr (inbin, b) \<Rightarrow>
          if d = [] then Inl IndexError
          else if last d = key then
            (if inbin = 0 then Inl ZeroDivisionError else Inr (butlast b @ [last b / real inbin]))
          else Inr (butlast b))"

text \<open>
  Small pieces of Python and NumPy that the body of \<^verbatim>\<open>cumulative\<close> uses inline:
  \<^verbatim>\<open>int(x)\<close> truncates towards zero; \<^verbatim>\<open>x[:m]\<close> with a negative \<open>m\<close> drops the
  last \<open>-m\<close> entries; \<^verbatim>\<open>np.unique\<close> sorts and removes repetitions;
  \<^verbatim>\<open>np.cumsum\<close>; the product of two one-dimensional arrays, which broadcasts an
  array of size one and raises on any other mismatch of the sizes.
\<close>

definition py_int :: "real \<Rightarrow> int" where
  "py_int x = (if 0 \<le> x then \<lfloor>x\<rfloor> else \<lceil>x\<rceil>)"

definition slice_to :: "int \<Rightarrow> 'a list \<Rightarrow> 'a list" where
  "slice_to m xs = (if 0 \<le> m then take (nat m) xs else take (length xs - nat (- m)) xs)"

definition np_unique :: "real list \<Rightarrow> real list" where
  "np_unique xs = remdups_adj (sort xs)"

fun cumsum_from :: "real \<Rightarrow> real list \<Rightarrow> real list" where
  "cumsum_from acc [] = []"
| "cumsum_from acc (x # xs) = (acc + x) # cumsum_from (acc + x) xs"

definition cumsum :: "real list \<Rightarrow> real list" where
  "cumsum xs = cumsum_from 0 xs"

definition np_times :: "real list \<Rightarrow> real list \<Rightarrow> error + real list" where
  "np_times x y =
     (if length x = length y then Inr (map2 (*) x y)
      else if length x = 1 then Inr (map (\<lambda>v. hd x * v) y)
      else if length y = 1 then Inr (map (\<lambda>v. v * hd y) x)
      else Inl ValueError)"

definition bnd :: "error + 'a \<Rightarrow> ('a \<Rightarrow> error + 'b) \<Rightarrow> error + 'b" where
  "bnd m f = (case m of Inl err \<Rightarrow> Inl err | Inr x \<Rightarrow> f x)"

text \<open>\<^verbatim>\<open>x[j]\<close> for a list \<^verbatim>\<open>x\<close> of two arrays and \<open>j\<close> equal to 0 or 1.\<close>

definition pick :: "nat \<Rightarrow> 'a \<times> 'a \<Rightarrow> 'a" where
  "pick j p = (if j = 0 then fst p else snd p)"

text \<open>
  The three staggering loops (lines 218-223, 248-253 and 259-264) fill an array of size
  \<open>n\<close> with \<^verbatim>\<open>x[k // 2]\<close> at the even positions and \<^verbatim>\<open>y[k // 2]\<close> at the odd
  ones; a read beyond \<^verbatim>\<open>x\<close> or \<^verbatim>\<open>y\<close> raises.
\<close>

definition stagger :: "real list \<Rightarrow> real list \<Rightarrow> nat \<Rightarrow> error + real list" where
  "stagger x y n =
     (if (n + 1) div 2 \<le> length x \<and> n div 2 \<le> length y
      then Inr (map (\<lambda>k. if even k then x ! (k div 2) else y ! (k div 2)) [0..<n])
      else Inl IndexError)"

text \<open>The loops of lines 234-239 and 242-247, for index ranges that are checked by the caller.\<close>

definition diffs0 :: "real list \<Rightarrow> real list \<Rightarrow> nat \<Rightarrow> real list" where
  "diffs0 bx by la0 = map (\<lambda>k. ((bx ! k - by ! k) + (bx ! (k + 1) - by ! k)) / 2) [0..<la0]"

definition weights0 :: "real list \<Rightarrow> real list \<Rightarrow> nat \<Rightarrow> real list" where
  "weights0 wx wy la0 = map (\<lambda>k. (wx ! k + 2 * wy ! k + wx ! (k + 1)) / 4) [0..<la0]"

definition diffs1 :: "real list \<Rightarrow> real list \<Rightarrow> nat \<Rightarrow> real list" where
  "diffs1 bx by la1 =
     map (\<lambda>k. ((bx ! (k + 1) - by ! k) + (bx ! (k + 1) - by ! (k + 1))) / 2) [0..<la1]"

definition weights1 :: "real list \<Rightarrow> real list \<Rightarrow> nat \<Rightarrow> real list" where
  "weights1 wx wy la1 = map (\<lambda>k. (wy ! k + 2 * wx ! (k + 1) + wy ! (k + 1)) / 4) [0..<la1]"

section \<open>\<^verbatim>\<open>cumulative\<close>\<close>

text \<open>
  What \<^verbatim>\<open>cumulative\<close> has computed when it draws the curve (line 271): the abscissae
  and the ordinates \<^verbatim>\<open>aa\<close> of the curve, the scores \<^verbatim>\<open>t01sub\<close> that label
  it, and the differences \<^verbatim>\<open>a[:int(len(a) * fraction)]\<close> and weights
  \<^verbatim>\<open>w01sub\<close> from which the length scale is taken. The drawing receives the curve and
  the length scale.
\<close>

record curve =
  abscissae :: "real list"
  ordinates :: "real list"
  t01sub :: "real list"
  asub :: "real list"
  w01sub :: "real list"

type_synonym plot = "curve \<Rightarrow> real \<Rightarrow> error option"

text \<open>
  Lines 199-203: the total of both weight arrays, then each array divided by it in
  place. The arrays are positive when this runs (line 198), so the total is zero only when
  both arrays are empty and nothing is divided.
\<close>

definition normalize :: "heap \<Rightarrow> addr \<times> addr \<Rightarrow> error + heap" where
  "normalize h w =
     (let wtot = sum_list (h (fst w)) + sum_list (h (snd w))
      in if wtot = 0 \<and> (h (fst w) \<noteq> [] \<or> h (snd w) \<noteq> []) then Inl NonFinite
         else
           (let h1 = h(fst w := map (\<lambda>x. x / wtot) (h (fst w)));
                h2 = h1(snd w := map (\<lambda>x. x / wtot) (h1 (snd w)))
            in Inr h2))"

text \<open>
  Lines 207-275, on the values of the arrays after the normalization: \<open>r\<close>, \<open>s\<close> and
  \<open>w\<close> are the pairs of responses, scores and weights.
\<close>

definition cumulative_core ::
  "real list \<times> real list \<Rightarrow> real list \<times> real list \<Rightarrow> real list \<times> real list \<Rightarrow> real
   \<Rightarrow> error + curve" where
  "cumulative_core r s w fraction =
     (case mergesorted (fst s) (snd s) of (c, d, e) \<Rightarrow>
      bnd (binvalues (fst r) d e 0 (fst w)) (\<lambda>b0.
      bnd (binvalues (snd r) d e 1 (snd w)) (\<lambda>b1.
      bnd (binvalues (fst s) d e 0 (fst w)) (\<lambda>t0.
      bnd (binvalues (snd s) d e 1 (snd w)) (\<lambda>t1.
      let d0 = hd d
      in
      bnd (stagger (pick d0 (t0, t1)) (pick (1 - d0) (t0, t1)) (length t0 + length t1)) (\<lambda>t01.
      if \<not> successively (<) t01 then Inl (AssertionError Staggered)
      else
      bnd (aggvalues (fst w) d e 0) (\<lambda>w20.
      bnd (aggvalues (snd w) d e 1) (\<lambda>w21.
      let bx = pick d0 (b0, b1); by = pick (1 - d0) (b0, b1);
          wx = pick d0 (w20, w21); wy = pick (1 - d0) (w20, w21);
          la0 = min (int (length bx) - 1) (int (length by));
          la1 = min (int (length bx) - 1) (int (length by) - 1)
      in
      if la0 < 0 then Inl ValueError
      else if 0 < la0 \<and> \<not> (nat la0 < length wx \<and> nat la0 \<le> length wy) then Inl IndexError
      else if la1 < 0 then Inl ValueError
      else if 0 < la1 \<and> \<not> (nat la1 < length wx \<and> nat la1 < length wy) then Inl IndexError
      else
      let a0 = diffs0 bx by (nat la0); w0 = weights0 wx wy (nat la0);
          a1 = diffs1 bx by (nat la1); w1 = weights1 wx wy (nat la1)
      in
      bnd (stagger a0 a1 (nat (la0 + la1))) (\<lambda>a'.
      let a = (if d0 = 1 then map uminus a' else a')
      in
      bnd (stagger w0 w1 (nat (la0 + la1))) (\<lambda>w01.
      let m = py_int (real (length w01) * fraction);
          wsum = sum_list (slice_to m w01)
      in
      if wsum = 0 \<and> slice_to m w01 \<noteq> [] then Inl NonFinite
      else
      let ws = map (\<lambda>x. x / wsum) (slice_to m w01);
          as = slice_to (py_int (real (length a) * fraction)) a
      in
      Inr \<lparr>abscissae = cumsum ws,
           ordinates = cumsum (map2 (*) as ws),
           t01sub = slice_to m t01,
           asub = as,
           w01sub = ws\<rparr>))))))))))"

text \<open>
  The length scale, lines 276-291. With \<^verbatim>\<open>probs\<close> the square root of a negative sum
  is \<^verbatim>\<open>nan\<close> in the source.
\<close>

definition lenscale_of :: "bool \<Rightarrow> curve \<Rightarrow> error + real" where
  "lenscale_of probs cv =
     (if probs then
        bnd (np_times (map (\<lambda>x. x\<^sup>2) (w01sub cv)) (t01sub cv)) (\<lambda>p.
        bnd (np_times p (map (\<lambda>x. 1 - x) (t01sub cv))) (\<lambda>q.
          if sum_list q < 0 then Inl NonFinite
          else Inr (sqrt (sum_list q) * sqrt 2 * sqrt 2)))
      else
        (let aaa = map2 (-) (tl (asub cv)) (butlast (asub cv));
             wa = map2 (+) (tl (w01sub cv)) (butlast (w01sub cv))
         in Inr (sqrt (sum_list (map2 (*) (map (\<lambda>x. x\<^sup>2) aaa) (map (\<lambda>x. x\<^sup>2) wa)) / 16)
                   * sqrt 2 * sqrt 2)))"

text \<open>
  Lines 346-350. \<^verbatim>\<open>np.max\<close> of an empty array raises.
\<close>

definition cumulative_stats :: "curve \<Rightarrow> real \<Rightarrow> error + real \<times> real \<times> real \<times> nat" where
  "cumulative_stats cv l =
     (let aa = ordinates cv; aa0 = 0 # aa;
          kuiper = Max (set aa0) - Min (set aa0)
      in if aa = [] then Inl ValueError
         else Inr (kuiper, Max (set (map abs aa)), l, length (t01sub cv)))"

text \<open>
  Lines 191-196: \<^verbatim>\<open>weights.copy()\<close> is a new list that holds the same two arrays as
  the caller's list; without weights two arrays of ones are allocated.
\<close>

definition weighting :: "heap \<Rightarrow> nat \<Rightarrow> nat \<Rightarrow> (nat \<times> nat) option \<Rightarrow> heap \<times> (addr \<times> addr)" where
  "weighting h n0 n1 weights =
     (case weights of
        None \<Rightarrow> (h(Fresh 0 := replicate n0 1, Fresh 1 := replicate n1 1), (Fresh 0, Fresh 1))
      | Some p \<Rightarrow> (h, (Caller (fst p), Caller (snd p))))"

definition positive :: "real list \<Rightarrow> bool" where
  "positive w = (\<forall>x \<in> set w. 0 < x)"

text \<open>
  The check of lines 188-189: \<^verbatim>\<open>np.unique\<close> of the concatenated scores has as many
  entries as the two arrays together.
\<close>

definition disjoint_scores :: "real list \<Rightarrow> real list \<Rightarrow> bool" where
  "disjoint_scores s0 s1 = (length (np_unique (s0 @ s1)) = length s0 + length s1)"

text \<open>
  The function up to the drawing of the curve, lines 184-275. \<open>r\<close>, \<open>s\<close> and
  \<open>weights\<close> hold the positions \<open>i\<close> of the caller's arrays \<open>Caller i\<close>. Lines 184-189
  check the scores; lines 191-196 take the weights; line 198 checks them and lines 199-203
  normalize them in place. The result holds the heap as the call leaves it, and either the
  exception or the curve.
\<close>

definition cumulative_curve ::
  "heap \<Rightarrow> nat \<times> nat \<Rightarrow> nat \<times> nat \<Rightarrow> real \<Rightarrow> (nat \<times> nat) option \<Rightarrow> heap \<times> (error + curve)" where
  "cumulative_curve h r s fraction weights =
     (let s0 = h (Caller (fst s)); s1 = h (Caller (snd s))
      in
      if \<not> (successively (<) s0 \<and> successively (<) s1) then (h, Inl (AssertionError Sorted))
      else if \<not> disjoint_scores s0 s1 then (h, Inl (AssertionError Disjoint))
      else
      (let hw = weighting h (length s0) (length s1) weights; h1 = fst hw; w = snd hw
       in
       if \<not> (positive (h1 (fst w)) \<and> positive (h1 (snd w)))
         then (h1, Inl (AssertionError PositiveWeights))
       else
         (case normalize h1 w of
            Inl err \<Rightarrow> (h1, Inl err)
          | Inr h2 \<Rightarrow>
              (h2,
               cumulative_core (h2 (Caller (fst r)), h2 (Caller (snd r)))
                 (h2 (Caller (fst s)), h2 (Caller (snd s))) (h2 (fst w), h2 (snd w)) fraction))))"

text \<open>
  The whole function: the curve, the length scale (lines 276-291), the drawing, and the
  statistics that are returned (lines 346-350).
\<close>

definition cumulative_full ::
  "plot \<Rightarrow> heap \<Rightarrow> nat \<times> nat \<Rightarrow> nat \<times> nat \<Rightarrow> bool \<Rightarrow> real \<Rightarrow> (nat \<times> nat) option
   \<Rightarrow> heap \<times> (error + real \<times> real \<times> real \<times> nat)" where
  "cumulative_full plot h r s probs fraction weights =
     (let hc = cumulative_curve h r s fraction weights
      in (fst hc,
          bnd (snd hc) (\<lambda>cv.
          bnd (lenscale_of probs cv) (\<lambda>l.
          case plot cv l of
            Some err \<Rightarrow> Inl err
          | None \<Rightarrow> cumulative_stats cv l))))"

text \<open>
  A sequence is single-signed when no two of its entries have opposite signs.
\<close>

definition single_signed :: "real list \<Rightarrow> bool" where
  "single_signed xs = ((\<forall>x \<in> set xs. 0 \<le> x) \<or> (\<forall>x \<in> set xs. x \<le> 0))"

text \<open>What the call returns, and what it leaves in the caller's arrays.\<close>

definition cumulative ::
  "plot \<Rightarrow> heap \<Rightarrow> nat \<times> nat \<Rightarrow> nat \<times> nat \<Rightarrow> bool \<Rightarrow> real \<Rightarrow> (nat \<times> nat) option
   \<Rightarrow> error + real \<times> real \<times> real \<times> nat" where
  "cumulative plot h r s probs fraction weights =
     snd (cumulative_full plot h r s probs fraction weights)"

definition cumulative_heap ::
  "plot \<Rightarrow> heap \<Rightarrow> nat \<times> nat \<Rightarrow> nat \<times> nat \<Rightarrow> bool \<Rightarrow> real \<Rightarrow> (nat \<times> nat) option \<Rightarrow> heap" where
  "cumulative_heap plot h r s probs fraction weights =
     fst (cumulative_full plot h r s probs fraction weights)"




section \<open>\<^verbatim>\<open>equiscores\<close>\<close>

text \<open>
  The average of a bin as the reliability diagrams hold it: a number, the sentinel
  \<^verbatim>\<open>np.nan\<close>, or an infinity (a nonzero sum divided by a zero weight).
\<close>

datatype bin_avg = Avg real | NaN | Infinite

text \<open>
  The comparison of line 397, \<^verbatim>\<open>q[k] > qmax * (j + 1) / nbins\<close>. Its right-hand
  side decides which bin an observation enters, and the source computes it in floating
  point: the product is rounded, and then the quotient. Here the rounding matters, since
  the rounded \<^verbatim>\<open>qmax * nbins / nbins\<close> can lie below \<^verbatim>\<open>qmax\<close> (as for 0.7 and
  3), so it is a parameter \<open>fl\<close> of the embedding: the function that maps the exact
  result of an operation to the float that the source holds. The identity is exact
  arithmetic. With \<^verbatim>\<open>nbins\<close> zero the right-hand side is \<^verbatim>\<open>inf\<close>,
  \<^verbatim>\<open>nan\<close> or \<^verbatim>\<open>-inf\<close> in the source, and the comparison holds only in the
  last case.
\<close>

type_synonym rounding = "real \<Rightarrow> real"

definition exceeds :: "rounding \<Rightarrow> real \<Rightarrow> real \<Rightarrow> nat \<Rightarrow> nat \<Rightarrow> bool" where
  "exceeds fl qk qmax j nbins =
     (if nbins = 0 then fl (qmax * real (j + 1)) < 0
      else qk > fl (fl (qmax * real (j + 1)) / real nbins))"

text \<open>
  The loop of \<^verbatim>\<open>bintwo\<close>, lines 396-403: \<open>k\<close> is the position in \<^verbatim>\<open>q\<close>, the
  list argument is the part of \<^verbatim>\<open>q\<close> from \<open>k\<close> on, and the state is \<open>j\<close> with the
  three arrays \<^verbatim>\<open>bina\<close>, \<^verbatim>\<open>binb\<close> and \<^verbatim>\<open>wbin\<close>.
\<close>

fun bintwo_loop ::
  "rounding \<Rightarrow> nat \<Rightarrow> real list \<Rightarrow> real list \<Rightarrow> real \<Rightarrow> real list \<Rightarrow> nat \<Rightarrow> real list \<Rightarrow> nat
   \<Rightarrow> real list \<times> real list \<times> real list \<Rightarrow> error + real list \<times> real list \<times> real list" where
  "bintwo_loop fl nbins a b qmax w k [] j st = Inr st"
| "bintwo_loop fl nbins a b qmax w k (qk # qs) j (bina, binb, wbin) =
     (let j' = (if exceeds fl qk qmax j nbins then j + 1 else j)
      in if j' = nbins then Inr (bina, binb, wbin)
         else if \<not> (k < length w \<and> k < length a \<and> k < length b \<and> j' < nbins)
           then Inl IndexError
         else bintwo_loop fl nbins a b qmax w (Suc k) qs j'
                (bina[j' := bina ! j' + w ! k * a ! k],
                 binb[j' := binb ! j' + w ! k * b ! k],
                 wbin[j' := wbin ! j' + w ! k]))"

text \<open>
  Lines 404-408: the division where the weight of the bin is not zero, and
  \<^verbatim>\<open>np.nan\<close> where it is.
\<close>

definition average :: "real \<Rightarrow> real \<Rightarrow> bin_avg" where
  "average x wb = (if wb \<noteq> 0 then Avg (x / wb) else NaN)"

text \<open>
  \<^verbatim>\<open>bintwo(nbins, a, b, q, qmax, w)\<close>, lines 387-409. \<^verbatim>\<open>np.zeros\<close> raises for
  a negative size.
\<close>

definition bintwo ::
  "rounding \<Rightarrow> int \<Rightarrow> real list \<Rightarrow> real list \<Rightarrow> real list \<Rightarrow> real \<Rightarrow> real list
   \<Rightarrow> error + real list \<times> bin_avg list \<times> bin_avg list" where
  "bintwo fl nbins a b q qmax w =
     (if nbins < 0 then Inl ValueError
      else
        (let z = replicate (nat nbins) 0
         in bnd (bintwo_loop fl (nat nbins) a b qmax w 0 q 0 (z, z, z))
              (\<lambda>(bina, binb, wbin). Inr (wbin, map2 average bina wbin, map2 average binb wbin))))"

text \<open>
  Lines 415-427 of \<^verbatim>\<open>equiscores\<close> and lines 537-549 of \<^verbatim>\<open>equierrs\<close>, on the
  values of the arrays. Without weights the source reads a global \<^verbatim>\<open>n\<close>, which only
  the script at the end of the module defines (\<^verbatim>\<open>n = [10000, 7000]\<close>); \<open>n\<close> is
  \<open>None\<close> where the module is imported, and the name is then undefined.
\<close>

definition weights_of ::
  "(nat \<times> nat) option \<Rightarrow> (real list \<times> real list) option \<Rightarrow> error + real list \<times> real list" where
  "weights_of n weights =
     bnd (case weights of
            None \<Rightarrow> (case n of None \<Rightarrow> Inl NameError
                       | Some m \<Rightarrow> Inr (replicate (fst m) 1, replicate (snd m) 1))
          | Some w \<Rightarrow> Inr w)
       (\<lambda>w. if \<not> (positive (fst w) \<and> positive (snd w)) then Inl (AssertionError PositiveWeights)
             else
               (let wtot = sum_list (fst w) + sum_list (snd w)
                in if wtot = 0 \<and> (fst w \<noteq> [] \<or> snd w \<noteq> []) then Inl NonFinite
                   else Inr (map (\<lambda>x. x / wtot) (fst w), map (\<lambda>x. x / wtot) (snd w))))"

text \<open>
  \<^verbatim>\<open>equiscores\<close>, lines 411-437: the subpopulation 1 is binned first. The diagram
  draws the averages of the responses and of the scores of each bin; the result holds them
  for the subpopulation 0 and then for the subpopulation 1. \<^verbatim>\<open>s[j][-1]\<close> raises for
  an empty array.
\<close>

type_synonym diagram = "(bin_avg list \<times> bin_avg list) \<times> (bin_avg list \<times> bin_avg list)"

definition equiscores_bins ::
  "rounding \<Rightarrow> int \<Rightarrow> real list \<Rightarrow> real list \<Rightarrow> real list \<Rightarrow> error + bin_avg list \<times> bin_avg list" where
  "equiscores_bins fl nbins rj sj wj =
     (if sj = [] then Inl IndexError
      else bnd (bintwo fl nbins rj sj sj (last sj) wj) (\<lambda>(wbin, binr, bins). Inr (binr, bins)))"

definition equiscores ::
  "rounding \<Rightarrow> (diagram \<Rightarrow> error option) \<Rightarrow> (nat \<times> nat) option \<Rightarrow> real list \<times> real list
   \<Rightarrow> real list \<times> real list \<Rightarrow> int \<Rightarrow> (real list \<times> real list) option \<Rightarrow> error + diagram" where
  "equiscores fl plot n r s nbins weights =
     (if \<not> (successively (\<le>) (fst s) \<and> successively (\<le>) (snd s))
        then Inl (AssertionError Sorted)
      else
        bnd (weights_of n weights) (\<lambda>w.
        bnd (equiscores_bins fl nbins (snd r) (snd s) (snd w)) (\<lambda>d1.
        bnd (equiscores_bins fl nbins (fst r) (fst s) (fst w)) (\<lambda>d0.
        case plot (d0, d1) of Some err \<Rightarrow> Inl err | None \<Rightarrow> Inr (d0, d1)))))"

section \<open>\<^verbatim>\<open>equierrs\<close>\<close>

text \<open>
  The random generator is represented by what it returns: \<^verbatim>\<open>rng.permutation(m)\<close>
  is a parameter \<open>perm\<close>, a list that holds the numbers below \<open>m\<close> in some order.

  The threshold \<^verbatim>\<open>t\<close> of line 515 is \<^verbatim>\<open>nan\<close> or \<^verbatim>\<open>inf\<close> when the
  sample \<^verbatim>\<open>v\<close> sums to zero (it is empty when \<^verbatim>\<open>proxy\<close> is zero); it is then
  \<open>None\<close>, and no number compares greater than it. The comparison of line 523,
  \<^verbatim>\<open>ss / s**2 > t\<close>, follows the floating-point rules in the same way when
  \<^verbatim>\<open>s\<close> is zero.
\<close>

definition threshold :: "real list \<Rightarrow> real option" where
  "threshold v = (if sum_list v = 0 then None else Some (sum_list (map (\<lambda>x. x\<^sup>2) v) / (sum_list v)\<^sup>2))"

definition ratio_gt :: "real \<Rightarrow> real \<Rightarrow> real option \<Rightarrow> bool" where
  "ratio_gt ss s t =
     (case t of
        None \<Rightarrow> False
      | Some tv \<Rightarrow> if s = 0 then ss > 0 else ss / s\<^sup>2 > tv)"

text \<open>The inner loop of \<^verbatim>\<open>binbounds\<close>, lines 523-526; it returns the final \<open>k\<close>.\<close>

function grow :: "real list \<Rightarrow> real option \<Rightarrow> nat \<Rightarrow> real \<Rightarrow> real \<Rightarrow> nat" where
  "grow w t k s ss =
     (if ratio_gt ss s t \<and> k < length w - 1
      then grow w t (k + 1) (s + w ! (k + 1)) (ss + (w ! (k + 1))\<^sup>2)
      else k)"
  by pat_completeness auto
termination
  by (relation "measure (\<lambda>(w, t, k, s, ss). length w - k)") auto

declare grow.simps [simp del]

lemma grow_step:
  "ratio_gt ss s t \<and> k < length w - 1 \<Longrightarrow>
     grow w t k s ss = grow w t (k + 1) (s + w ! (k + 1)) (ss + (w ! (k + 1))\<^sup>2)"
  by (subst grow.simps) simp

lemma grow_stop: "\<not> (ratio_gt ss s t \<and> k < length w - 1) \<Longrightarrow> grow w t k s ss = k"
  by (subst grow.simps) auto

lemma grow_ge: "k \<le> grow w t k s ss"
proof (induction w t k s ss rule: grow.induct)
  case (1 w t k s ss)
  show ?case
  proof (cases "ratio_gt ss s t \<and> k < length w - 1")
    case True
    with 1 have "k + 1 \<le> grow w t (k + 1) (s + w ! (k + 1)) (ss + (w ! (k + 1))\<^sup>2)"
      by simp
    then show ?thesis using grow_step [OF True] by simp
  next
    case False
    then show ?thesis by (simp add: grow_stop)
  qed
qed

lemma grow_less: "k < length w \<Longrightarrow> grow w t k s ss < length w"
proof (induction w t k s ss rule: grow.induct)
  case (1 w t k s ss)
  show ?case
  proof (cases "ratio_gt ss s t \<and> k < length w - 1")
    case True
    then have "k + 1 < length w" by auto
    with 1 True have "grow w t (k + 1) (s + w ! (k + 1)) (ss + (w ! (k + 1))\<^sup>2) < length w"
      by simp
    then show ?thesis using grow_step [OF True] by simp
  next
    case False
    with 1 show ?thesis by (simp add: grow_stop)
  qed
qed

text \<open>
  The outer loop, lines 518-526: \<^verbatim>\<open>inbin.append(k)\<close>, then the bin grows from
  \<open>k + 1\<close>.
\<close>

function bounds_loop :: "real list \<Rightarrow> real option \<Rightarrow> nat \<Rightarrow> nat list \<Rightarrow> nat list" where
  "bounds_loop w t k inbin =
     (if k < length w - 1
      then bounds_loop w t (grow w t (k + 1) (w ! (k + 1)) ((w ! (k + 1))\<^sup>2)) (inbin @ [k])
      else inbin)"
  by pat_completeness auto
termination
proof (relation "measure (\<lambda>(w, t, k, inbin). length w - k)")
  show "wf (measure (\<lambda>(w, t, k, inbin). length w - k))" by simp
next
  fix w :: "real list" and t :: "real option" and k :: nat and inbin :: "nat list"
  assume k: "k < length w - 1"
  have "k + 1 \<le> grow w t (k + 1) (w ! (k + 1)) ((w ! (k + 1))\<^sup>2)"
    by (rule grow_ge)
  with k show "((w, t, grow w t (k + 1) (w ! (k + 1)) ((w ! (k + 1))\<^sup>2), inbin @ [k]), (w, t, k, inbin))
      \<in> measure (\<lambda>(w, t, k, inbin). length w - k)"
    by simp
qed

declare bounds_loop.simps [simp del]

text \<open>
  \<^verbatim>\<open>binbounds(nbins, w)\<close>, lines 508-531. \<^verbatim>\<open>len(w) // nbins\<close> raises for
  \<^verbatim>\<open>nbins\<close> zero and rounds down otherwise; \<^verbatim>\<open>inbin[-1]\<close> and
  \<^verbatim>\<open>inbin[-2]\<close> raise when \<^verbatim>\<open>inbin\<close> has fewer than two entries.
\<close>

definition binbounds :: "nat list \<Rightarrow> int \<Rightarrow> real list \<Rightarrow> error + nat list" where
  "binbounds perm nbins w =
     (if nbins = 0 then Inl ZeroDivisionError
      else
        (let proxy = int (length w) div nbins;
             idx = sort (slice_to proxy perm)
         in if \<not> (\<forall>i \<in> set idx. i < length w) then Inl IndexError
            else
              (let v = map (\<lambda>i. w ! i) idx;
                   t = threshold v;
                   inbin = bounds_loop w t 0 []
               in if length inbin < 2 then Inl IndexError
                  else if real (length w - last inbin)
                            < real (last inbin - last (butlast inbin)) / 2
                    then Inr (butlast inbin @ [length w])
                  else Inr (inbin @ [length w]))))"

text \<open>
  \<^verbatim>\<open>inbintwo(a, b, inbin, w)\<close>, lines 492-506. The slices and their products are
  summed for each bin. Here \<^verbatim>\<open>wbin\<close> is a Python list, so \<^verbatim>\<open>wbin != 0\<close> is
  \<^verbatim>\<open>True\<close> and \<^verbatim>\<open>wbin == 0\<close> is \<^verbatim>\<open>False\<close>: the division of lines 502 and
  504 is done in every bin, by the floating-point rules where the weight is zero, and the
  assignments of lines 503 and 505 change no entry.
\<close>

definition slice :: "nat \<Rightarrow> nat \<Rightarrow> 'a list \<Rightarrow> 'a list" where
  "slice i j xs = take (j - i) (drop i xs)"

definition np_divide :: "real \<Rightarrow> real \<Rightarrow> bin_avg" where
  "np_divide x wb = (if wb \<noteq> 0 then Avg (x / wb) else if x = 0 then NaN else Infinite)"

fun weighted_sums :: "real list \<Rightarrow> real list \<Rightarrow> nat list \<Rightarrow> error + real list" where
  "weighted_sums w a (i # j # inbin) =
     bnd (np_times (slice i j w) (slice i j a)) (\<lambda>p.
     bnd (weighted_sums w a (j # inbin)) (\<lambda>rest. Inr (sum_list p # rest)))"
| "weighted_sums w a inbin = Inr []"

fun bin_weights :: "real list \<Rightarrow> nat list \<Rightarrow> real list" where
  "bin_weights w (i # j # inbin) = sum_list (slice i j w) # bin_weights w (j # inbin)"
| "bin_weights w inbin = []"

definition inbintwo ::
  "real list \<Rightarrow> real list \<Rightarrow> nat list \<Rightarrow> real list
   \<Rightarrow> error + real list \<times> bin_avg list \<times> bin_avg list" where
  "inbintwo a b inbin w =
     (let wbin = bin_weights w inbin
      in bnd (weighted_sums w a inbin) (\<lambda>bina.
         bnd (weighted_sums w b inbin) (\<lambda>binb.
         Inr (wbin, map2 np_divide bina wbin, map2 np_divide binb wbin))))"

text \<open>
  \<^verbatim>\<open>equierrs\<close>, lines 533-577: the bounds of the subpopulation 0 and then of the
  subpopulation 1 each take one permutation from the generator; the subpopulation 1 is
  binned first. The result holds what the diagram draws and the list that is returned.
\<close>

definition equierrs ::
  "(diagram \<Rightarrow> error option) \<Rightarrow> (nat \<times> nat) option \<Rightarrow> real list \<times> real list
   \<Rightarrow> real list \<times> real list \<Rightarrow> int \<Rightarrow> nat list \<times> nat list \<Rightarrow> (real list \<times> real list) option
   \<Rightarrow> error + diagram \<times> (nat \<times> nat)" where
  "equierrs plot n r s nbins perms weights =
     (if \<not> (successively (\<le>) (fst s) \<and> successively (\<le>) (snd s))
        then Inl (AssertionError Sorted)
      else
        bnd (weights_of n weights) (\<lambda>w.
        bnd (binbounds (fst perms) nbins (fst w)) (\<lambda>inbin0.
        bnd (binbounds (snd perms) nbins (snd w)) (\<lambda>inbin1.
        bnd (inbintwo (snd r) (snd s) inbin1 (snd w)) (\<lambda>(wbin1, binr1, bins1).
        bnd (inbintwo (fst r) (fst s) inbin0 (fst w)) (\<lambda>(wbin0, binr0, bins0).
        case plot ((binr0, bins0), (binr1, bins1)) of
          Some err \<Rightarrow> Inl err
        | None \<Rightarrow> Inr (((binr0, bins0), (binr1, bins1)),
                        (length inbin0 - 1, length inbin1 - 1))))))))"

section \<open>\<^verbatim>\<open>ate\<close>\<close>

text \<open>
  Lines 665-672, on the values of the arrays: each array of weights is divided by its own
  sum. A sum that is zero gives \<^verbatim>\<open>inf\<close> or \<^verbatim>\<open>nan\<close> entries unless the array
  is empty.
\<close>

definition unit_sum :: "real list \<Rightarrow> error + real list" where
  "unit_sum w =
     (if sum_list w = 0 \<and> w \<noteq> [] then Inl NonFinite
      else Inr (map (\<lambda>x. x / sum_list w) w))"

definition ate_weights ::
  "real list \<times> real list \<Rightarrow> (real list \<times> real list) option \<Rightarrow> error + real list \<times> real list" where
  "ate_weights s weights =
     (let w = (case weights of
                 None \<Rightarrow> (replicate (length (fst s)) 1, replicate (length (snd s)) 1)
               | Some w \<Rightarrow> w)
      in bnd (unit_sum (fst w)) (\<lambda>w0. bnd (unit_sum (snd w)) (\<lambda>w1. Inr (w0, w1))))"

text \<open>
  \<^verbatim>\<open>x[perm]\<close> for an array of indices: the entries of \<^verbatim>\<open>x\<close> at the positions
  that \<^verbatim>\<open>perm\<close> lists, and an exception for a position beyond \<^verbatim>\<open>x\<close>.
\<close>

definition take_at :: "'a list \<Rightarrow> nat list \<Rightarrow> error + 'a list" where
  "take_at x perm =
     (if \<forall>i \<in> set perm. i < length x then Inr (map (\<lambda>i. x ! i) perm) else Inl IndexError)"

text \<open>
  \<^verbatim>\<open>np.argsort(s2, kind='stable')\<close>: the positions of \<^verbatim>\<open>s2\<close> in the order of
  their scores, equal scores in the order of their positions.
\<close>

definition argsort :: "real list \<Rightarrow> nat list" where
  "argsort s2 = map snd (sort_key fst (zip s2 [0..<length s2]))"

text \<open>
  The two searches of lines 699-701 and 711-713. \<open>look_left ispop j k\<close> runs the first
  loop from the position \<open>k\<close>: the result is the final \<open>k\<close>, or \<open>None\<close> when the loop
  ends below zero. \<open>look_right ispop m j k\<close> runs the second one, \<open>m\<close> being
  \<^verbatim>\<open>len(r2)\<close>: the result is \<open>None\<close> when the loop ends at \<open>m\<close>.
\<close>

fun look_left :: "nat list \<Rightarrow> nat \<Rightarrow> nat \<Rightarrow> nat option" where
  "look_left ispop j 0 = (if ispop ! 0 = ispop ! j then None else Some 0)"
| "look_left ispop j (Suc k) =
     (if ispop ! Suc k = ispop ! j then look_left ispop j k else Some (Suc k))"

function look_right :: "nat list \<Rightarrow> nat \<Rightarrow> nat \<Rightarrow> nat \<Rightarrow> nat option" where
  "look_right ispop m j k =
     (if k < m \<and> ispop ! k = ispop ! j then look_right ispop m j (Suc k)
      else if k < m then Some k else None)"
  by pat_completeness auto
termination
  by (relation "measure (\<lambda>(ispop, m, j, k). m - k)") auto

declare look_right.simps [simp del]

text \<open>
  Lines 703-709 and 715-721: the difference of the responses, with the sign that makes it
  the subpopulation 0 minus the subpopulation 1; zero without a neighbour.
\<close>

definition signed_diff :: "real list \<Rightarrow> nat list \<Rightarrow> nat \<Rightarrow> nat option \<Rightarrow> real" where
  "signed_diff r2 ispop j found =
     (case found of
        None \<Rightarrow> 0
      | Some k \<Rightarrow> if ispop ! j = 0 then - (r2 ! k - r2 ! j) else r2 ! k - r2 ! j)"

text \<open>Lines 698-725: what the position \<open>j\<close> adds to \<^verbatim>\<open>wate\<close>.\<close>

definition contribution :: "real list \<Rightarrow> real list \<Rightarrow> nat list \<Rightarrow> nat \<Rightarrow> real" where
  "contribution r2 w2 ispop j =
     (let left = look_left ispop j j; right = look_right ispop (length r2) j j;
          diff0 = signed_diff r2 ispop j left; diff1 = signed_diff r2 ispop j right
      in if left \<noteq> None \<and> right \<noteq> None then (diff0 + diff1) * w2 ! j / 2
         else (diff0 + diff1) * w2 ! j)"

definition wate_of :: "real list \<Rightarrow> real list \<Rightarrow> nat list \<Rightarrow> real" where
  "wate_of r2 w2 ispop = sum_list (map (contribution r2 w2 ispop) [0..<length r2])"

text \<open>
  The loop of lines 682-727. The state is the four arrays \<^verbatim>\<open>s2\<close>, \<^verbatim>\<open>r2\<close>,
  \<^verbatim>\<open>w2\<close> and \<^verbatim>\<open>ispop\<close>, which stay permuted and sorted from one repetition to
  the next, and the list \<^verbatim>\<open>ates\<close>. The list argument holds the permutations that
  the generator returns, one for each repetition.
\<close>

type_synonym arrays = "real list \<times> real list \<times> real list \<times> nat list"

definition reorder :: "arrays \<Rightarrow> nat list \<Rightarrow> error + arrays" where
  "reorder st perm =
     (case st of (s2, r2, w2, ispop) \<Rightarrow>
        bnd (take_at s2 perm) (\<lambda>s2'.
        bnd (take_at r2 perm) (\<lambda>r2'.
        bnd (take_at w2 perm) (\<lambda>w2'.
        bnd (take_at ispop perm) (\<lambda>ispop'. Inr (s2', r2', w2', ispop'))))))"

fun ate_loop :: "arrays \<Rightarrow> nat list list \<Rightarrow> real list \<Rightarrow> error + real list" where
  "ate_loop st [] ates = Inr ates"
| "ate_loop st (perm # perms) ates =
     bnd (reorder st perm) (\<lambda>st1.
     bnd (reorder st1 (argsort (fst st1))) (\<lambda>st2.
     case st2 of (s2, r2, w2, ispop) \<Rightarrow>
       ate_loop st2 perms (ates @ [wate_of r2 w2 ispop / 2])))"

text \<open>
  \<^verbatim>\<open>ate(r, s, rng, weights, num_rand)\<close>, lines 664-728; \<^verbatim>\<open>num_rand\<close> is the
  number of the permutations. The average of an empty list of estimates divides by zero.
\<close>

definition ate ::
  "nat list list \<Rightarrow> real list \<times> real list \<Rightarrow> real list \<times> real list
   \<Rightarrow> (real list \<times> real list) option \<Rightarrow> error + real" where
  "ate perms r s weights =
     bnd (ate_weights s weights) (\<lambda>w.
     bnd (ate_loop (fst s @ snd s, fst r @ snd r, fst w @ snd w,
                    replicate (length (fst r)) 0 @ replicate (length (snd r)) 1) perms [])
       (\<lambda>ates. if ates = [] then Inl ZeroDivisionError
                else Inr (sum_list ates / real (length ates))))"

section \<open>The specification's reading of the equal-width bins\<close>

text \<open>
  The specification describes \<^verbatim>\<open>equiscores\<close> as cutting the interval from the least
  to the greatest score into \<open>k\<close> intervals of the same width and putting each
  observation into the interval that contains its score. \<open>spec_bin\<close> is the index of
  that interval (the greatest score belongs to the last one), and \<open>spec_bins\<close> are the
  weighted averages of an array \<open>a\<close> over the observations of each interval. These two
  definitions follow the specification, not the source.
\<close>

definition spec_bin :: "real \<Rightarrow> real \<Rightarrow> nat \<Rightarrow> real \<Rightarrow> nat" where
  "spec_bin lo hi k x = (if hi \<le> x then k - 1 else nat \<lfloor>(x - lo) * real k / (hi - lo)\<rfloor>)"

definition spec_bins :: "nat \<Rightarrow> real list \<Rightarrow> real list \<Rightarrow> real list \<Rightarrow> bin_avg list" where
  "spec_bins k a q w =
     map (\<lambda>j. let inside = filter (\<lambda>i. spec_bin (hd q) (last q) k (q ! i) = j) [0..<length q]
              in average (sum_list (map (\<lambda>i. w ! i * a ! i) inside))
                   (sum_list (map (\<lambda>i. w ! i) inside)))
       [0..<k]"

section \<open>The grid that \<^verbatim>\<open>bintwo\<close> follows\<close>

text \<open>
  The bins of \<^verbatim>\<open>bintwo\<close>, described without its loop, for the comparison with
  the source. \<open>bin_bound\<close> is the right-hand side of line 397 for the bin \<open>j\<close>.
  \<open>grid_index\<close> is the number of the leading bounds that lie below a score: the
  score is above the bounds of the bins before that index and not above the bound of that
  bin, and the index is \<open>nbins\<close> for a score above every bound. The scores \<open>q\<close>
  skip no interval when the index of the first score is at most 1 and the index rises by
  at most 1 from each score to the next. \<open>members\<close> are the entries of an array
  \<open>v\<close> at the observations whose score has the index \<open>j\<close>, and \<open>grid_bins\<close>
  are the weighted averages of an array \<open>a\<close> over the observations of each index
  below \<open>nbins\<close>.
\<close>

definition bin_bound :: "rounding \<Rightarrow> real \<Rightarrow> nat \<Rightarrow> nat \<Rightarrow> real" where
  "bin_bound fl qmax nbins j = fl (fl (qmax * real (j + 1)) / real nbins)"

definition grid_index :: "rounding \<Rightarrow> real \<Rightarrow> nat \<Rightarrow> real \<Rightarrow> nat" where
  "grid_index fl qmax nbins x = length (takeWhile (\<lambda>j. bin_bound fl qmax nbins j < x) [0..<nbins])"

definition no_skip :: "rounding \<Rightarrow> real \<Rightarrow> nat \<Rightarrow> real list \<Rightarrow> bool" where
  "no_skip fl qmax nbins q =
     successively (\<lambda>i j. j \<le> Suc i) (0 # map (grid_index fl qmax nbins) q)"

definition members :: "rounding \<Rightarrow> real \<Rightarrow> nat \<Rightarrow> real list \<Rightarrow> real list \<Rightarrow> nat \<Rightarrow> real list" where
  "members fl qmax nbins q v j =
     map snd (filter (\<lambda>(x, y). grid_index fl qmax nbins x = j) (zip q v))"

definition grid_bins :: "rounding \<Rightarrow> nat \<Rightarrow> real list \<Rightarrow> real list \<Rightarrow> real list \<Rightarrow> bin_avg list" where
  "grid_bins fl nbins a q w =
     map (\<lambda>j. average (sum_list (members fl (last q) nbins q (map2 (*) w a) j))
                      (sum_list (members fl (last q) nbins q w j)))
       [0..<nbins]"

section \<open>Weight normalization\<close>

lemma sum_list_divide: "sum_list (map (\<lambda>x. x / c) xs) = sum_list xs / (c::real)"
  by (induction xs) (simp_all add: add_divide_distrib)

lemma positive_sum: "positive w \<Longrightarrow> w \<noteq> [] \<Longrightarrow> 0 < sum_list w"
proof (induction w)
  case Nil
  then show ?case by simp
next
  case (Cons x w)
  have "0 \<le> sum_list w"
  proof (cases "w = []")
    case True
    then show ?thesis by simp
  next
    case False
    with Cons show ?thesis by (simp add: positive_def)
  qed
  moreover have "0 < x" using Cons.prems by (simp add: positive_def)
  ultimately show ?case by simp
qed

lemma positive_sum_nonneg: "positive w \<Longrightarrow> 0 \<le> sum_list w"
  using positive_sum [of w] by (cases "w = []") auto

lemma cumulative_heap_weights:
  assumes "successively (<) (h (Caller (fst s)))" and "successively (<) (h (Caller (snd s)))"
    and "disjoint_scores (h (Caller (fst s))) (h (Caller (snd s)))"
    and "positive (h (Caller i0))" and "positive (h (Caller i1))"
    and "normalize h (Caller i0, Caller i1) = Inr h'"
  shows "cumulative_heap plot h r s probs fraction (Some (i0, i1)) = h'"
  using assms
  by (simp add: cumulative_heap_def cumulative_full_def cumulative_curve_def weighting_def Let_def)

text \<open>
  Claim C1, as amended. The normalization of \<^verbatim>\<open>cumulative\<close> (lines 199-203) divides
  both weight arrays by their common total: for two distinct, nonempty arrays of positive
  weights it succeeds and the two arrays then sum to 1 together, not 1 each. When the
  scores pass the checks of lines 184-189, these normalized arrays are what the call of
  \<^verbatim>\<open>cumulative\<close> leaves in the place of the weights. The normalization of
  \<^verbatim>\<open>ate\<close> (lines 671-672) divides each array by its own sum, and there each array
  sums to 1.
\<close>

theorem weight_normalization:
  assumes "positive (h (Caller i0))" and "positive (h (Caller i1))"
    and "h (Caller i0) \<noteq> []" and "h (Caller i1) \<noteq> []" and "i0 \<noteq> i1"
  shows "(\<exists>h'. normalize h (Caller i0, Caller i1) = Inr h'
           \<and> sum_list (h' (Caller i0)) + sum_list (h' (Caller i1)) = 1
           \<and> (successively (<) (h (Caller (fst s))) \<and> successively (<) (h (Caller (snd s)))
                \<and> disjoint_scores (h (Caller (fst s))) (h (Caller (snd s)))
              \<longrightarrow> cumulative_heap plot h r s probs fraction (Some (i0, i1)) = h'))
       \<and> (\<exists>w0 w1. ate_weights sv (Some (h (Caller i0), h (Caller i1))) = Inr (w0, w1)
             \<and> sum_list w0 = 1 \<and> sum_list w1 = 1)"
proof -
  let ?p0 = "Caller i0" and ?p1 = "Caller i1"
  have s0: "0 < sum_list (h ?p0)" and s1: "0 < sum_list (h ?p1)"
    using assms by (simp_all add: positive_sum)
  let ?wtot = "sum_list (h ?p0) + sum_list (h ?p1)"
  let ?h' = "h(?p0 := map (\<lambda>x. x / ?wtot) (h ?p0), ?p1 := map (\<lambda>x. x / ?wtot) (h ?p1))"
  have wtot: "?wtot \<noteq> 0" using s0 s1 by simp
  have n: "normalize h (?p0, ?p1) = Inr ?h'"
    using wtot assms(5) by (simp add: normalize_def Let_def)
  have "sum_list (?h' ?p0) = sum_list (h ?p0) / ?wtot"
    and "sum_list (?h' ?p1) = sum_list (h ?p1) / ?wtot"
    using assms(5) by (simp_all add: sum_list_divide)
  then have "sum_list (?h' ?p0) + sum_list (?h' ?p1) = ?wtot / ?wtot"
    by (simp only: add_divide_distrib)
  with wtot have one: "sum_list (?h' ?p0) + sum_list (?h' ?p1) = 1" by simp
  have c: "cumulative_heap plot h r s probs fraction (Some (i0, i1)) = ?h'"
    if "successively (<) (h (Caller (fst s))) \<and> successively (<) (h (Caller (snd s)))
        \<and> disjoint_scores (h (Caller (fst s))) (h (Caller (snd s)))"
    using that assms(1,2) n by (simp add: cumulative_heap_weights)
  have a: "ate_weights sv (Some (h ?p0, h ?p1))
      = Inr (map (\<lambda>x. x / sum_list (h ?p0)) (h ?p0), map (\<lambda>x. x / sum_list (h ?p1)) (h ?p1))"
    using s0 s1 by (simp add: ate_weights_def unit_sum_def bnd_def)
  have "sum_list (map (\<lambda>x. x / sum_list (h ?p0)) (h ?p0)) = 1"
    and "sum_list (map (\<lambda>x. x / sum_list (h ?p1)) (h ?p1)) = 1"
    using s0 s1 by (simp_all add: sum_list_divide)
  with a n one c show ?thesis by blast
qed

text \<open>
  The amended claim C1 at the weights \<open>[1, 3, 2]\<close> and \<open>[4, 5, 1]\<close>, whose total
  is 16.
\<close>

theorem weight_normalization_witness:
  "positive [1, 3, 2] \<and> positive [4, 5, 1]
   \<and> successively (<) [1, 3, 5 :: real] \<and> successively (<) [2, 4, 6 :: real]
   \<and> disjoint_scores [1, 3, 5] [2, 4, 6]
   \<and> (\<exists>h'. normalize ((\<lambda>_. [])(Caller 2 := [1, 0, 1], Caller 3 := [0, 1, 0],
                  Caller 4 := [1, 3, 5], Caller 5 := [2, 4, 6],
                  Caller 6 := [1, 3, 2], Caller 7 := [4, 5, 1])) (Caller 6, Caller 7) = Inr h'
        \<and> sum_list (h' (Caller 6)) + sum_list (h' (Caller 7)) = 1
        \<and> cumulative_heap (\<lambda>_ _. None) ((\<lambda>_. [])(Caller 2 := [1, 0, 1], Caller 3 := [0, 1, 0],
                  Caller 4 := [1, 3, 5], Caller 5 := [2, 4, 6],
                  Caller 6 := [1, 3, 2], Caller 7 := [4, 5, 1])) (2, 3) (4, 5) False 1 (Some (6, 7))
            = h'
        \<and> h' (Caller 6) = [1 / 16, 3 / 16, 1 / 8] \<and> h' (Caller 7) = [1 / 4, 5 / 16, 1 / 16])
   \<and> (\<exists>w0 w1. ate_weights ([1, 3, 5], [2, 4, 6]) (Some ([1, 3, 2], [4, 5, 1])) = Inr (w0, w1)
        \<and> sum_list w0 = 1 \<and> sum_list w1 = 1)"
proof -
  have d: "disjoint_scores [1, 3, 5] [2, 4, 6]" by code_simp
  have n: "normalize ((\<lambda>_. [])(Caller 2 := [1, 0, 1], Caller 3 := [0, 1, 0],
                  Caller 4 := [1, 3, 5], Caller 5 := [2, 4, 6],
                  Caller 6 := [1, 3, 2], Caller 7 := [4, 5, 1])) (Caller 6, Caller 7)
      = Inr ((\<lambda>_. [])(Caller 2 := [1, 0, 1], Caller 3 := [0, 1, 0],
                  Caller 4 := [1, 3, 5], Caller 5 := [2, 4, 6],
                  Caller 6 := [1 / 16, 3 / 16, 1 / 8], Caller 7 := [1 / 4, 5 / 16, 1 / 16]))"
    by (simp add: normalize_def Let_def fun_upd_twist)
  from weight_normalization [of "(\<lambda>_. [])(Caller 2 := [1, 0, 1], Caller 3 := [0, 1, 0],
                  Caller 4 := [1, 3, 5], Caller 5 := [2, 4, 6],
                  Caller 6 := [1, 3, 2], Caller 7 := [4, 5, 1])" 6 7 "(4, 5)" "(\<lambda>_ _. None)"
                  "(2, 3)" False 1 "([1, 3, 5], [2, 4, 6])"] d n
  show ?thesis by (simp add: positive_def)
qed

text \<open>
  Claim C1 as the specification states it fails for \<^verbatim>\<open>cumulative\<close>: the weights
  \<open>[1]\<close> and \<open>[1]\<close> are normalized to two arrays that sum to one half each.
\<close>

theorem weight_normalization_counterexample:
  "map_sum id (\<lambda>h'. (sum_list (h' (Caller 0)), sum_list (h' (Caller 1))))
     (normalize ((\<lambda>_. [])(Caller 0 := [1], Caller 1 := [1])) (Caller 0, Caller 1)) = Inr (1 / 2, 1 / 2)"
  by (simp add: normalize_def Let_def)

section \<open>The checks of \<^verbatim>\<open>cumulative\<close>\<close>

lemma sorted_distinct_adj: "sorted xs \<Longrightarrow> distinct_adj xs \<Longrightarrow> distinct (xs :: real list)"
proof (induction xs rule: remdups_adj.induct)
  case (3 x y xs)
  then have d: "distinct (y # xs)" and xy: "x < y" by auto
  from 3 have "\<forall>z \<in> set (y # xs). y \<le> z" by auto
  with xy have "x \<notin> set (y # xs)" by auto
  with d show ?case by simp
qed simp_all

lemma length_np_unique: "length (np_unique xs) = card (set xs)"
proof -
  have "distinct (np_unique xs)"
    unfolding np_unique_def by (rule sorted_distinct_adj) simp_all
  then have "card (set (np_unique xs)) = length (np_unique xs)"
    by (rule distinct_card)
  then show ?thesis by (simp add: np_unique_def)
qed

lemma disjoint_scores_iff: "disjoint_scores a b \<longleftrightarrow> distinct (a @ b)"
proof -
  have "card (set (a @ b)) = length (a @ b) \<longleftrightarrow> distinct (a @ b)"
    using card_distinct distinct_card by blast
  then show ?thesis by (simp add: disjoint_scores_def length_np_unique)
qed

lemma increasing_distinct: "successively (<) (xs :: real list) \<Longrightarrow> distinct xs"
proof -
  assume "successively (<) xs"
  then have "sorted_wrt (<) xs" by (simp add: successively_conv_sorted_wrt)
  then show ?thesis by (simp add: strict_sorted_iff)
qed

lemma cumulative_curve_rejects:
  "\<not> (successively (<) (h (Caller (fst s))) \<and> successively (<) (h (Caller (snd s)))) \<Longrightarrow>
     cumulative_curve h r s fraction weights = (h, Inl (AssertionError Sorted))"
  "successively (<) (h (Caller (fst s))) \<and> successively (<) (h (Caller (snd s))) \<Longrightarrow>
     \<not> disjoint_scores (h (Caller (fst s))) (h (Caller (snd s))) \<Longrightarrow>
     cumulative_curve h r s fraction weights = (h, Inl (AssertionError Disjoint))"
  by (simp_all add: cumulative_curve_def Let_def)

lemma cumulative_of_curve_error:
  "cumulative_curve h r s fraction weights = (h', Inl err) \<Longrightarrow>
     cumulative plot h r s probs fraction weights = Inl err
     \<and> cumulative_heap plot h r s probs fraction weights = h'"
  by (simp add: cumulative_def cumulative_heap_def cumulative_full_def Let_def bnd_def)

text \<open>
  Claim C4. If the two score arrays of \<^verbatim>\<open>cumulative\<close> share a value, the call fails
  with an assertion (that of line 186 when an array is not strictly increasing, that of
  line 189 otherwise) and leaves the heap as it was, so no statistic is produced; for
  strictly increasing arrays that share a value it is the disjointness check that fails;
  and for strictly increasing arrays with disjoint sets of scores the disjointness check
  passes.
\<close>

theorem disjointness_check:
  fixes h :: heap and s :: "nat \<times> nat"
  defines "s0 \<equiv> h (Caller (fst s))" and "s1 \<equiv> h (Caller (snd s))"
  shows "(set s0 \<inter> set s1 \<noteq> {} \<longrightarrow>
            (cumulative plot h r s probs fraction weights = Inl (AssertionError Sorted)
             \<or> cumulative plot h r s probs fraction weights = Inl (AssertionError Disjoint))
            \<and> cumulative_heap plot h r s probs fraction weights = h)
       \<and> (successively (<) s0 \<and> successively (<) s1 \<and> set s0 \<inter> set s1 \<noteq> {} \<longrightarrow>
            cumulative plot h r s probs fraction weights = Inl (AssertionError Disjoint))
       \<and> (successively (<) s0 \<and> successively (<) s1 \<and> set s0 \<inter> set s1 = {} \<longrightarrow>
            disjoint_scores s0 s1)"
proof -
  have unsorted: "cumulative plot h r s probs fraction weights = Inl (AssertionError Sorted)
      \<and> cumulative_heap plot h r s probs fraction weights = h"
    if "\<not> (successively (<) s0 \<and> successively (<) s1)"
  proof -
    from that have "cumulative_curve h r s fraction weights = (h, Inl (AssertionError Sorted))"
      unfolding s0_def s1_def by (simp add: cumulative_curve_rejects(1))
    then show ?thesis by (rule cumulative_of_curve_error)
  qed
  have shared: "cumulative plot h r s probs fraction weights = Inl (AssertionError Disjoint)
      \<and> cumulative_heap plot h r s probs fraction weights = h"
    if "successively (<) s0 \<and> successively (<) s1" and "set s0 \<inter> set s1 \<noteq> {}"
  proof -
    from that(2) have "\<not> disjoint_scores s0 s1" by (auto simp: disjoint_scores_iff)
    with that(1) have "cumulative_curve h r s fraction weights = (h, Inl (AssertionError Disjoint))"
      unfolding s0_def s1_def by (simp add: cumulative_curve_rejects(2))
    then show ?thesis by (rule cumulative_of_curve_error)
  qed
  have passes: "disjoint_scores s0 s1"
    if "successively (<) s0 \<and> successively (<) s1 \<and> set s0 \<inter> set s1 = {}"
    using that by (auto simp: disjoint_scores_iff dest: increasing_distinct)
  show ?thesis using unsorted shared passes by blast
qed

text \<open>
  Claim C4 at the scores \<open>[1, 3, 5]\<close> and \<open>[2, 3, 6]\<close>, which share 3, and at the
  disjoint scores \<open>[1, 3, 5]\<close> and \<open>[2, 4, 6]\<close>.
\<close>

theorem disjointness_check_witness:
  "cumulative (\<lambda>_ _. None)
     ((\<lambda>_. [])(Caller 2 := [1, 0, 1], Caller 3 := [0, 1, 0], Caller 4 := [1, 3, 5], Caller 5 := [2, 3, 6]))
     (2, 3) (4, 5) False 1 None = Inl (AssertionError Disjoint)
   \<and> cumulative_heap (\<lambda>_ _. None)
     ((\<lambda>_. [])(Caller 2 := [1, 0, 1], Caller 3 := [0, 1, 0], Caller 4 := [1, 3, 5], Caller 5 := [2, 3, 6]))
     (2, 3) (4, 5) False 1 None
     = (\<lambda>_. [])(Caller 2 := [1, 0, 1], Caller 3 := [0, 1, 0], Caller 4 := [1, 3, 5], Caller 5 := [2, 3, 6])
   \<and> disjoint_scores [1, 3, 5] [2, 4, 6]"
  using disjointness_check [of "(\<lambda>_. [])(Caller 2 := [1, 0, 1], Caller 3 := [0, 1, 0], Caller 4 := [1, 3, 5], Caller 5 := [2, 3, 6])"
      "(4, 5)" "(\<lambda>_ _. None)" "(2, 3)" False 1 None]
    disjointness_check [of "(\<lambda>_. [])(Caller 4 := [1, 3, 5], Caller 5 := [2, 4, 6])"
      "(4, 5)" "(\<lambda>_ _. None)" "(2, 3)" False 1 None]
  by simp

section \<open>The statistics of \<^verbatim>\<open>cumulative\<close>\<close>

lemma curve_of_cumulative:
  assumes "cumulative plot h r s probs fraction weights = Inr res"
  shows "\<exists>cv l. snd (cumulative_curve h r s fraction weights) = Inr cv
           \<and> cumulative_stats cv l = Inr res"
  using assms
  by (auto simp: cumulative_def cumulative_full_def Let_def bnd_def
      split: sum.splits option.splits)

lemma stats_bounds:
  assumes "cumulative_stats cv l = Inr (kuiper, ks, l', n)"
  shows "kuiper = Max (set (0 # ordinates cv)) - Min (set (0 # ordinates cv))
       \<and> ks = Max (set (map abs (ordinates cv)))
       \<and> 0 \<le> kuiper \<and> 0 \<le> ks \<and> ks \<le> kuiper"
proof -
  let ?aa = "ordinates cv"
  from assms have ne: "?aa \<noteq> []"
    and k: "kuiper = Max (set (0 # ?aa)) - Min (set (0 # ?aa))"
    and ks: "ks = Max (set (map abs ?aa))"
    by (auto simp: cumulative_stats_def Let_def split: if_splits)
  have mx: "0 \<le> Max (set (0 # ?aa))" by (rule Max_ge) simp_all
  have mn: "Min (set (0 # ?aa)) \<le> 0" by (rule Min_le) simp_all
  have each: "\<bar>x\<bar> \<le> Max (set (0 # ?aa)) - Min (set (0 # ?aa))" if "x \<in> set ?aa" for x
  proof -
    from that have "x \<le> Max (set (0 # ?aa))" by (intro Max_ge) simp_all
    moreover from that have "Min (set (0 # ?aa)) \<le> x" by (intro Min_le) simp_all
    ultimately show ?thesis using mx mn by linarith
  qed
  have "ks \<le> kuiper"
    unfolding ks k using ne each by (subst Max_le_iff) auto
  moreover have "0 \<le> ks"
  proof -
    from ne obtain x where x: "x \<in> set ?aa" by (cases ?aa) auto
    then have "\<bar>x\<bar> \<le> Max (set (map abs ?aa))" by (intro Max_ge) auto
    then show ?thesis unfolding ks by linarith
  qed
  moreover have "0 \<le> kuiper" unfolding k using mx mn by linarith
  ultimately show ?thesis using k ks by simp
qed

text \<open>
  Claim C3. Whenever \<^verbatim>\<open>cumulative\<close> returns, the Kuiper statistic is the maximum
  minus the minimum of the ordinates of the curve with 0 inserted, the
  Kolmogorov-Smirnov statistic is the greatest absolute value of the ordinates, both are
  nonnegative, and the Kuiper statistic is at least the Kolmogorov-Smirnov statistic when
  the ordinates are single-signed.
\<close>

theorem statistics_bounds:
  assumes "cumulative plot h r s probs fraction weights = Inr (kuiper, ks, l, n)"
  shows "\<exists>cv. snd (cumulative_curve h r s fraction weights) = Inr cv
           \<and> kuiper = Max (set (0 # ordinates cv)) - Min (set (0 # ordinates cv))
           \<and> ks = Max (set (map abs (ordinates cv)))
           \<and> 0 \<le> kuiper \<and> 0 \<le> ks
           \<and> (single_signed (ordinates cv) \<longrightarrow> ks \<le> kuiper)"
proof -
  from curve_of_cumulative [OF assms] obtain cv l' where
    cv: "snd (cumulative_curve h r s fraction weights) = Inr cv"
    and st: "cumulative_stats cv l' = Inr (kuiper, ks, l, n)" by blast
  from stats_bounds [OF st] cv show ?thesis by blast
qed

text \<open>
  A run with the responses \<open>[1, 1, 1]\<close> and \<open>[0, 1, 0]\<close> at the scores \<open>[1, 3, 5]\<close> and
  \<open>[2, 4, 6]\<close>, without weights.
\<close>

lemma core_example:
  "cumulative_core ([1, 1, 1], [0, 1, 0]) ([1, 3, 5], [2, 4, 6])
     ([1 / 6, 1 / 6, 1 / 6], [1 / 6, 1 / 6, 1 / 6]) 1
   = Inr \<lparr>abscissae = [1 / 4, 1 / 2, 3 / 4, 1], ordinates = [1 / 4, 3 / 8, 3 / 8, 1 / 2],
          t01sub = [1, 2, 3, 4], asub = [1, 1 / 2, 0, 1 / 2],
          w01sub = [1 / 4, 1 / 4, 1 / 4, 1 / 4]\<rparr>"
  by code_simp

lemma curve_example:
  "snd (cumulative_curve
     ((\<lambda>_. [])(Caller 2 := [1, 1, 1], Caller 3 := [0, 1, 0], Caller 4 := [1, 3, 5], Caller 5 := [2, 4, 6]))
     (2, 3) (4, 5) 1 None)
   = Inr \<lparr>abscissae = [1 / 4, 1 / 2, 3 / 4, 1], ordinates = [1 / 4, 3 / 8, 3 / 8, 1 / 2],
          t01sub = [1, 2, 3, 4], asub = [1, 1 / 2, 0, 1 / 2],
          w01sub = [1 / 4, 1 / 4, 1 / 4, 1 / 4]\<rparr>"
  by (simp add: cumulative_curve_def disjoint_scores_iff weighting_def positive_def
      normalize_def Let_def core_example)

lemma cumulative_example:
  "\<exists>l. cumulative (\<lambda>_ _. None)
     ((\<lambda>_. [])(Caller 2 := [1, 1, 1], Caller 3 := [0, 1, 0], Caller 4 := [1, 3, 5], Caller 5 := [2, 4, 6]))
     (2, 3) (4, 5) False 1 None = Inr (1 / 2, 1 / 2, l, 4)"
  by (simp add: cumulative_def cumulative_full_def Let_def curve_example bnd_def
      lenscale_of_def cumulative_stats_def)

text \<open>Claim C3 at that run, whose ordinates are single-signed.\<close>

theorem statistics_bounds_witness:
  "\<exists>l cv. cumulative (\<lambda>_ _. None)
       ((\<lambda>_. [])(Caller 2 := [1, 1, 1], Caller 3 := [0, 1, 0], Caller 4 := [1, 3, 5], Caller 5 := [2, 4, 6]))
       (2, 3) (4, 5) False 1 None = Inr (1 / 2, 1 / 2, l, 4)
     \<and> snd (cumulative_curve
       ((\<lambda>_. [])(Caller 2 := [1, 1, 1], Caller 3 := [0, 1, 0], Caller 4 := [1, 3, 5], Caller 5 := [2, 4, 6]))
       (2, 3) (4, 5) 1 None) = Inr cv
     \<and> single_signed (ordinates cv)
     \<and> (1 / 2 :: real) = Max (set (0 # ordinates cv)) - Min (set (0 # ordinates cv))
     \<and> (1 / 2 :: real) = Max (set (map abs (ordinates cv)))"
proof -
  from cumulative_example obtain l where
    e: "cumulative (\<lambda>_ _. None)
     ((\<lambda>_. [])(Caller 2 := [1, 1, 1], Caller 3 := [0, 1, 0], Caller 4 := [1, 3, 5], Caller 5 := [2, 4, 6]))
     (2, 3) (4, 5) False 1 None = Inr (1 / 2, 1 / 2, l, 4)" by blast
  from statistics_bounds [OF e] obtain cv where
    cv: "snd (cumulative_curve
       ((\<lambda>_. [])(Caller 2 := [1, 1, 1], Caller 3 := [0, 1, 0], Caller 4 := [1, 3, 5], Caller 5 := [2, 4, 6]))
       (2, 3) (4, 5) 1 None) = Inr cv"
    and k: "(1 / 2 :: real) = Max (set (0 # ordinates cv)) - Min (set (0 # ordinates cv))"
    and ks: "(1 / 2 :: real) = Max (set (map abs (ordinates cv)))" by blast
  from cv have "ordinates cv = [1 / 4, 3 / 8, 3 / 8, 1 / 2]" by (auto simp: curve_example)
  then have "single_signed (ordinates cv)" by (simp add: single_signed_def)
  with e cv k ks show ?thesis by blast
qed

section \<open>The effect of \<^verbatim>\<open>cumulative\<close> on the caller's arrays\<close>

lemma cumulative_heap_curve:
  "cumulative_heap plot h r s probs fraction weights = fst (cumulative_curve h r s fraction weights)"
  by (simp add: cumulative_heap_def cumulative_full_def Let_def)

text \<open>
  Claim C9 fails on the source. When the checks of \<^verbatim>\<open>cumulative\<close> pass and the
  caller passes two distinct arrays of positive weights, the first of them nonempty, the
  call leaves the caller's first weight array divided by the total of both:
  \<^verbatim>\<open>weights.copy()\<close> copies the list, not the arrays in it.
\<close>

theorem cumulative_overwrites_weights:
  assumes "successively (<) (h (Caller (fst s)))" and "successively (<) (h (Caller (snd s)))"
    and "disjoint_scores (h (Caller (fst s))) (h (Caller (snd s)))"
    and "positive (h (Caller p0))" and "positive (h (Caller p1))"
    and "h (Caller p0) \<noteq> []" and "p0 \<noteq> p1"
  shows "cumulative_heap plot h r s probs fraction (Some (p0, p1)) (Caller p0)
         = map (\<lambda>x. x / (sum_list (h (Caller p0)) + sum_list (h (Caller p1)))) (h (Caller p0))"
proof -
  have "0 < sum_list (h (Caller p0))" and "0 \<le> sum_list (h (Caller p1))"
    using assms by (simp_all add: positive_sum positive_sum_nonneg)
  then have "sum_list (h (Caller p0)) + sum_list (h (Caller p1)) \<noteq> 0" by linarith
  then show ?thesis
    using assms
    by (simp add: cumulative_heap_curve cumulative_curve_def weighting_def normalize_def Let_def)
qed

text \<open>
  The caller's weights \<open>[2, 2, 2]\<close> are \<open>[1 / 6, 1 / 6, 1 / 6]\<close> after the call.
\<close>

theorem cumulative_overwrites_weights_witness:
  "cumulative_heap (\<lambda>_ _. None)
     ((\<lambda>_. [])(Caller 2 := [1, 0, 1], Caller 3 := [0, 1, 0], Caller 4 := [1, 3, 5], Caller 5 := [2, 4, 6],
               Caller 6 := [2, 2, 2], Caller 7 := [2, 2, 2]))
     (2, 3) (4, 5) False 1 (Some (6, 7)) (Caller 6) = [1 / 6, 1 / 6, 1 / 6]
   \<and> ((\<lambda>_. [])(Caller 2 := [1, 0, 1], Caller 3 := [0, 1, 0], Caller 4 := [1, 3, 5], Caller 5 := [2, 4, 6],
               Caller 6 := [2, 2, 2], Caller 7 := [2, 2, 2])) (Caller 6) = [2, 2, 2 :: real]"
  using cumulative_overwrites_weights [of
      "(\<lambda>_. [])(Caller 2 := [1, 0, 1], Caller 3 := [0, 1, 0], Caller 4 := [1, 3, 5], Caller 5 := [2, 4, 6],
               Caller 6 := [2, 2, 2], Caller 7 := [2, 2, 2])"
      "(4, 5)" 6 7 "(\<lambda>_ _. None)" "(2, 3)" False 1]
  by (simp add: disjoint_scores_iff positive_def)

section \<open>The sign convention of \<^verbatim>\<open>cumulative\<close>\<close>




































section \<open>The reliability diagrams without weights\<close>

text \<open>
  Claim C10 fails on the source. Where the module is imported, so that the global
  \<^verbatim>\<open>n\<close> of its script is undefined, \<^verbatim>\<open>equiscores\<close> and \<^verbatim>\<open>equierrs\<close>
  called without weights on sorted scores raise \<^verbatim>\<open>NameError\<close> (lines 418 and 540),
  where \<^verbatim>\<open>cumulative\<close> and \<^verbatim>\<open>ate\<close> take the sizes from the scores.
\<close>

theorem uniform_weights_undefined:
  assumes "successively (\<le>) (fst s)" and "successively (\<le>) (snd s)"
  shows "equiscores fl plot None r s nbins None = Inl NameError
       \<and> equierrs plot None r s nbins perms None = Inl NameError"
  using assms by (simp add: equiscores_def equierrs_def weights_of_def bnd_def)

text \<open>The two calls without weights at the scores \<open>[2, 4]\<close> and \<open>[3, 5]\<close>.\<close>

theorem uniform_weights_undefined_witness:
  "equiscores (\<lambda>x. x) (\<lambda>_. None) None ([1, 0], [0, 1]) ([2, 4], [3, 5]) 2 None = Inl NameError
   \<and> equierrs (\<lambda>_. None) None ([1, 0], [0, 1]) ([2, 4], [3, 5]) 2 ([0, 1], [0, 1]) None = Inl NameError"
  using uniform_weights_undefined [of "([2, 4], [3, 5])" "\<lambda>x. x" "(\<lambda>_. None)" "([1, 0], [0, 1])" 2 "([0, 1], [0, 1])"]
  by simp

section \<open>Bins without weight\<close>

lemma bintwo_loop_length:
  "bintwo_loop fl nbins a b qmax w k q j (bina, binb, wbin) = Inr (bina', binb', wbin') \<Longrightarrow>
     length bina' = length bina \<and> length binb' = length binb \<and> length wbin' = length wbin"
proof (induction q arbitrary: k j bina binb wbin)
  case Nil
  then show ?case by simp
next
  case (Cons qk qs)
  let ?j = "if exceeds fl qk qmax j nbins then j + 1 else j"
  show ?case
  proof (cases "?j = nbins")
    case True
    with Cons.prems show ?thesis by (simp add: Let_def)
  next
    case False
    with Cons.prems have
      "bintwo_loop fl nbins a b qmax w (Suc k) qs ?j
         (bina[?j := bina ! ?j + w ! k * a ! k], binb[?j := binb ! ?j + w ! k * b ! k],
          wbin[?j := wbin ! ?j + w ! k]) = Inr (bina', binb', wbin')"
      by (simp add: Let_def split: if_splits)
    from Cons.IH [OF this] show ?thesis by simp
  qed
qed

lemma bintwo_result:
  assumes "bintwo fl nbins a b q qmax w = Inr (wbin, bina, binb)"
  shows "length wbin = nat nbins \<and> length bina = nat nbins \<and> length binb = nat nbins
       \<and> (\<forall>j < nat nbins. wbin ! j = 0 \<longrightarrow> bina ! j = NaN \<and> binb ! j = NaN)"
proof -
  let ?z = "replicate (nat nbins) (0 :: real)"
  from assms obtain xa xb xw where
    loop: "bintwo_loop fl (nat nbins) a b qmax w 0 q 0 (?z, ?z, ?z) = Inr (xa, xb, xw)"
    and res: "wbin = xw" "bina = map2 average xa xw" "binb = map2 average xb xw"
    by (auto simp: bintwo_def bnd_def Let_def split: if_splits sum.splits prod.splits)
  from bintwo_loop_length [OF loop] have
    len: "length xa = nat nbins" "length xb = nat nbins" "length xw = nat nbins" by simp_all
  then show ?thesis using res by (simp add: average_def)
qed

lemma np_times_Nil: "np_times [] y = Inr p \<Longrightarrow> p = []"
  by (auto simp: np_times_def split: if_splits)

lemma weighted_sums_nth:
  "weighted_sums w a inbin = Inr xs \<Longrightarrow>
     length xs = length inbin - 1
     \<and> (\<forall>j < length xs. \<exists>p. np_times (slice (inbin ! j) (inbin ! (j + 1)) w)
                                  (slice (inbin ! j) (inbin ! (j + 1)) a) = Inr p
                            \<and> xs ! j = sum_list p)"
proof (induction w a inbin arbitrary: xs rule: weighted_sums.induct)
  case (1 w a i j inbin)
  from "1.prems" obtain p rest where
    p: "np_times (slice i j w) (slice i j a) = Inr p"
    and rest: "weighted_sums w a (j # inbin) = Inr rest"
    and xs: "xs = sum_list p # rest"
    by (auto simp: bnd_def split: sum.splits)
  from "1.IH" [OF rest] have
    len: "length rest = length (j # inbin) - 1"
    and nth: "\<forall>m < length rest. \<exists>p. np_times (slice ((j # inbin) ! m) ((j # inbin) ! (m + 1)) w)
                                  (slice ((j # inbin) ! m) ((j # inbin) ! (m + 1)) a) = Inr p
                            \<and> rest ! m = sum_list p"
    by simp_all
  show ?case
  proof (intro conjI allI impI)
    show "length xs = length (i # j # inbin) - 1" using xs len by simp
  next
    fix m assume m: "m < length xs"
    show "\<exists>p. np_times (slice ((i # j # inbin) ! m) ((i # j # inbin) ! (m + 1)) w)
                 (slice ((i # j # inbin) ! m) ((i # j # inbin) ! (m + 1)) a) = Inr p
             \<and> xs ! m = sum_list p"
    proof (cases m)
      case 0
      with p xs show ?thesis by simp
    next
      case (Suc m')
      with m xs have "m' < length rest" by simp
      with nth Suc xs show ?thesis by simp
    qed
  qed
qed simp_all

lemma bin_weights_nth:
  "length (bin_weights w inbin) = length inbin - 1
   \<and> (\<forall>j < length inbin - 1. bin_weights w inbin ! j = sum_list (slice (inbin ! j) (inbin ! (j + 1)) w))"
proof (induction w inbin rule: bin_weights.induct)
  case (1 w i j inbin)
  show ?case
  proof (intro conjI allI impI)
    show "length (bin_weights w (i # j # inbin)) = length (i # j # inbin) - 1" using 1 by simp
  next
    fix m assume m: "m < length (i # j # inbin) - 1"
    show "bin_weights w (i # j # inbin) ! m
            = sum_list (slice ((i # j # inbin) ! m) ((i # j # inbin) ! (m + 1)) w)"
    proof (cases m)
      case 0
      then show ?thesis by simp
    next
      case (Suc m')
      with m 1 show ?thesis by simp
    qed
  qed
qed simp_all

lemma positive_slice: "positive w \<Longrightarrow> positive (slice i j w)"
  by (auto simp: positive_def slice_def dest: in_set_takeD in_set_dropD)

lemma inbintwo_result:
  assumes "inbintwo a b inbin w = Inr (wbin, bina, binb)" and "positive w"
  shows "wbin = bin_weights w inbin
       \<and> length bina = length wbin \<and> length binb = length wbin
       \<and> (\<forall>j < length wbin. wbin ! j = 0 \<longrightarrow> bina ! j = NaN \<and> binb ! j = NaN)"
proof -
  from assms(1) obtain xa xb where
    xa: "weighted_sums w a inbin = Inr xa" and xb: "weighted_sums w b inbin = Inr xb"
    and res: "wbin = bin_weights w inbin" "bina = map2 np_divide xa wbin"
      "binb = map2 np_divide xb wbin"
    by (auto simp: inbintwo_def bnd_def Let_def split: sum.splits)
  note wa = weighted_sums_nth [OF xa] and wb = weighted_sums_nth [OF xb]
  note bw = bin_weights_nth [of w inbin]
  have len: "length xa = length wbin" "length xb = length wbin"
    using wa wb bw res(1) by simp_all
  have nan: "xa ! j = 0 \<and> xb ! j = 0" if j: "j < length wbin" and z: "wbin ! j = 0" for j
  proof -
    let ?sl = "slice (inbin ! j) (inbin ! (j + 1)) w"
    from j bw res(1) z have "sum_list ?sl = 0" by simp
    moreover have "positive ?sl" using assms(2) by (rule positive_slice)
    ultimately have e: "?sl = []" using positive_sum [of ?sl] by fastforce
    from wa j len obtain p where
      "np_times ?sl (slice (inbin ! j) (inbin ! (j + 1)) a) = Inr p" "xa ! j = sum_list p"
      by auto
    with e have a0: "xa ! j = 0" by (auto dest: np_times_Nil)
    from wb j len obtain p' where
      "np_times ?sl (slice (inbin ! j) (inbin ! (j + 1)) b) = Inr p'" "xb ! j = sum_list p'"
      by auto
    with e have "xb ! j = 0" by (auto dest: np_times_Nil)
    with a0 show ?thesis by simp
  qed
  show ?thesis using res len nan by (simp add: np_divide_def)
qed

text \<open>
  Claim C8. In the result of \<^verbatim>\<open>bintwo\<close>, a bin whose accumulated weight is zero has
  the sentinel \<^verbatim>\<open>np.nan\<close> as its average response and as its average score, not a
  number. The same holds for \<^verbatim>\<open>inbintwo\<close> on positive weights, as
  \<^verbatim>\<open>equierrs\<close> asserts them: the bin is then empty and the division of zero by zero
  gives \<^verbatim>\<open>np.nan\<close>.
\<close>

theorem empty_bin_is_nan:
  "(bintwo fl nbins a b q qmax w = Inr (wbin, bina, binb) \<and> j < length wbin \<and> wbin ! j = 0
      \<longrightarrow> bina ! j = NaN \<and> binb ! j = NaN)
   \<and> (inbintwo a' b' inbin w' = Inr (wbin', bina', binb') \<and> positive w'
        \<and> j' < length wbin' \<and> wbin' ! j' = 0
      \<longrightarrow> bina' ! j' = NaN \<and> binb' ! j' = NaN)"
  using bintwo_result [of fl nbins a b q qmax w wbin bina binb]
    inbintwo_result [of a' b' inbin w' wbin' bina' binb']
  by auto

text \<open>
  Claim C8 at a call of \<^verbatim>\<open>bintwo\<close> whose first bin receives no observation, and at a
  call of \<^verbatim>\<open>inbintwo\<close> whose first bin is empty.
\<close>

theorem empty_bin_is_nan_witness:
  "bintwo (\<lambda>x. x) 3 [1, 0, 1] [10, 12, 20] [10, 12, 20] 20 [1 / 3, 1 / 3, 1 / 3]
     = Inr ([0, 2 / 3, 1 / 3], [NaN, Avg (1 / 2), Avg 1], [NaN, Avg 11, Avg 20])
   \<and> [0, 2 / 3, 1 / 3 :: real] ! 0 = 0
   \<and> [NaN, Avg (1 / 2), Avg 1] ! 0 = NaN \<and> [NaN, Avg 11, Avg 20] ! 0 = NaN
   \<and> inbintwo [1, 0, 1, 1] [1, 2, 3, 4] [0, 0, 4] [1, 1, 1, 1]
     = Inr ([0, 4], [NaN, Avg (3 / 4)], [NaN, Avg (5 / 2)])
   \<and> positive [1, 1, 1, 1]
   \<and> [NaN, Avg (3 / 4)] ! 0 = NaN \<and> [NaN, Avg (5 / 2)] ! 0 = NaN"
proof -
  have b: "bintwo (\<lambda>x. x) 3 [1, 0, 1] [10, 12, 20] [10, 12, 20] 20 [1 / 3, 1 / 3, 1 / 3]
     = Inr ([0, 2 / 3, 1 / 3], [NaN, Avg (1 / 2), Avg 1], [NaN, Avg 11, Avg 20])"
    by code_simp
  have i: "inbintwo [1, 0, 1, 1] [1, 2, 3, 4] [0, 0, 4] [1, 1, 1, 1]
     = Inr ([0, 4], [NaN, Avg (3 / 4)], [NaN, Avg (5 / 2)])"
    by code_simp
  have p: "positive [1, 1, 1, 1]" by (simp add: positive_def)
  from empty_bin_is_nan [of "\<lambda>x. x" 3 "[1, 0, 1]" "[10, 12, 20]" "[10, 12, 20]" 20 "[1 / 3, 1 / 3, 1 / 3]"
      "[0, 2 / 3, 1 / 3]" "[NaN, Avg (1 / 2), Avg 1]" "[NaN, Avg 11, Avg 20]" 0
      "[1, 0, 1, 1]" "[1, 2, 3, 4]" "[0, 0, 4]" "[1, 1, 1, 1]"
      "[0, 4]" "[NaN, Avg (3 / 4)]" "[NaN, Avg (5 / 2)]" 0] b i p
  show ?thesis by simp
qed

section \<open>The bins of \<^verbatim>\<open>equierrs\<close>\<close>

lemma bounds_loop_step:
  "k < length w - 1 \<Longrightarrow>
     bounds_loop w t k inbin
       = bounds_loop w t (grow w t (k + 1) (w ! (k + 1)) ((w ! (k + 1))\<^sup>2)) (inbin @ [k])"
  by (subst bounds_loop.simps) simp

lemma bounds_loop_stop: "\<not> k < length w - 1 \<Longrightarrow> bounds_loop w t k inbin = inbin"
  by (subst bounds_loop.simps) simp

lemma bounds_loop_append: "bounds_loop w t k inbin = inbin @ bounds_loop w t k []"
proof (induction "length w - k" arbitrary: k inbin rule: less_induct)
  case less
  show ?case
  proof (cases "k < length w - 1")
    case True
    let ?k = "grow w t (k + 1) (w ! (k + 1)) ((w ! (k + 1))\<^sup>2)"
    have "k + 1 \<le> ?k" by (rule grow_ge)
    with True have m: "length w - ?k < length w - k" by linarith
    have a: "bounds_loop w t k inbin = bounds_loop w t ?k (inbin @ [k])"
      by (rule bounds_loop_step [OF True])
    have b: "bounds_loop w t ?k (inbin @ [k]) = (inbin @ [k]) @ bounds_loop w t ?k []"
      by (rule less [OF m])
    have c: "bounds_loop w t k [] = bounds_loop w t ?k ([] @ [k])"
      by (rule bounds_loop_step [OF True])
    have d: "bounds_loop w t ?k ([] @ [k]) = ([] @ [k]) @ bounds_loop w t ?k []"
      by (rule less [OF m])
    from c d have e: "bounds_loop w t k [] = [k] @ bounds_loop w t ?k []" by simp
    from a b have "bounds_loop w t k inbin = inbin @ ([k] @ bounds_loop w t ?k [])" by simp
    then show ?thesis by (simp only: e)
  next
    case False
    then show ?thesis by (simp add: bounds_loop_stop)
  qed
qed

lemma bounds_loop_bounds:
  "sorted_wrt (<) (bounds_loop w t k [])
   \<and> (\<forall>x \<in> set (bounds_loop w t k []). k \<le> x \<and> x < length w - 1)
   \<and> (bounds_loop w t k [] \<noteq> [] \<longrightarrow> hd (bounds_loop w t k []) = k)"
proof (induction "length w - k" arbitrary: k rule: less_induct)
  case less
  show ?case
  proof (cases "k < length w - 1")
    case True
    let ?k = "grow w t (k + 1) (w ! (k + 1)) ((w ! (k + 1))\<^sup>2)"
    have ge: "k + 1 \<le> ?k" by (rule grow_ge)
    with True have m: "length w - ?k < length w - k" by linarith
    have eq: "bounds_loop w t k [] = k # bounds_loop w t ?k []"
      using bounds_loop_step [OF True, of t "[]"] bounds_loop_append [of w t ?k "[k]"] by simp
    from less [OF m] have
      s: "sorted_wrt (<) (bounds_loop w t ?k [])"
      and b: "\<forall>x \<in> set (bounds_loop w t ?k []). ?k \<le> x \<and> x < length w - 1"
      by simp_all
    from b ge have "\<forall>x \<in> set (bounds_loop w t ?k []). k < x \<and> x < length w - 1" by fastforce
    with s True show ?thesis unfolding eq by auto
  next
    case False
    then show ?thesis by (simp add: bounds_loop_stop)
  qed
qed

lemma slice_append: "i \<le> j \<Longrightarrow> j \<le> k \<Longrightarrow> slice i j w @ slice j k w = slice i k w"
proof -
  assume ij: "i \<le> j" and jk: "j \<le> k"
  have "slice j k w = take (k - j) (drop (j - i) (drop i w))" using ij by (simp add: slice_def)
  then have "slice i j w @ slice j k w = take ((j - i) + (k - j)) (drop i w)"
    by (simp add: slice_def take_add)
  then show ?thesis using ij jk by (simp add: slice_def)
qed

lemma bin_weights_sum:
  "sorted (i # bs) \<Longrightarrow> sum_list (bin_weights w (i # bs)) = sum_list (slice i (last (i # bs)) w)"
proof (induction bs arbitrary: i)
  case Nil
  then show ?case by (simp add: slice_def)
next
  case (Cons j bs)
  then have ij: "i \<le> j" and s: "sorted (j # bs)" by auto
  from s have "\<forall>x \<in> set (j # bs). j \<le> x" by auto
  moreover have "last (j # bs) \<in> set (j # bs)" by (rule last_in_set) simp
  ultimately have jl: "j \<le> last (j # bs)" by blast
  have "sum_list (bin_weights w (i # j # bs))
      = sum_list (slice i j w) + sum_list (slice j (last (j # bs)) w)"
    using Cons.IH [OF s] by simp
  also have "\<dots> = sum_list (slice i j w @ slice j (last (j # bs)) w)" by simp
  also have "\<dots> = sum_list (slice i (last (j # bs)) w)"
    by (simp only: slice_append [OF ij jl])
  finally have "sum_list (bin_weights w (i # j # bs)) = sum_list (slice i (last (j # bs)) w)" .
  moreover have "last (i # j # bs) = last (j # bs)" by simp
  ultimately show ?case by (simp only:)
qed

lemma binbounds_result:
  assumes "binbounds perm nbins w = Inr inbin"
  shows "hd inbin = 0 \<and> last inbin = length w \<and> sorted_wrt (<) inbin \<and> 2 \<le> length inbin"
proof -
  define t where "t = threshold (map (\<lambda>i. w ! i) (sort (slice_to (int (length w) div nbins) perm)))"
  let ?B = "bounds_loop w t 0 []"
  from assms have "\<not> length ?B < 2 \<and> (inbin = butlast ?B @ [length w] \<or> inbin = ?B @ [length w])"
    unfolding binbounds_def Let_def t_def by (simp split: if_splits)
  then have len: "2 \<le> length ?B"
    and res: "inbin = butlast ?B @ [length w] \<or> inbin = ?B @ [length w]" by simp_all
  note bl = bounds_loop_bounds [of w t 0]
  from len have ne: "?B \<noteq> []" by auto
  from bl have s: "sorted_wrt (<) ?B" by blast
  from bl have "\<forall>x \<in> set ?B. x < length w - 1" by blast
  then have b: "\<forall>x \<in> set ?B. x < length w" by (meson less_imp_diff_less linorder_not_less diff_le_self order.strict_trans2)
  from bl ne have h: "hd ?B = 0" by blast
  have sb: "sorted_wrt (<) (butlast ?B)" using s by (simp add: butlast_conv_take sorted_wrt_take)
  have bb: "\<forall>x \<in> set (butlast ?B). x < length w" using b by (meson in_set_butlastD)
  have nb: "butlast ?B \<noteq> []"
  proof
    assume "butlast ?B = []"
    then have "length (butlast ?B) = 0" by simp
    with len show False by simp
  qed
  have hb: "hd (butlast ?B) = 0"
  proof -
    from nb obtain x xs where "butlast ?B = x # xs" by (cases "butlast ?B") auto
    moreover from ne have "?B = butlast ?B @ [last ?B]" by simp
    ultimately have "?B = x # (xs @ [last ?B])" by simp
    then have "hd ?B = x" by (metis list.sel(1))
    with h \<open>butlast ?B = x # xs\<close> show ?thesis by simp
  qed
  from res show ?thesis
  proof
    assume r: "inbin = butlast ?B @ [length w]"
    have "sorted_wrt (<) (butlast ?B @ [length w])" using sb bb by (simp add: sorted_wrt_append)
    moreover have "hd (butlast ?B @ [length w]) = 0" using hb nb by simp
    moreover have "last (butlast ?B @ [length w]) = length w" by simp
    moreover have "2 \<le> length (butlast ?B @ [length w])" using len by simp
    ultimately show ?thesis by (simp only: r)
  next
    assume r: "inbin = ?B @ [length w]"
    have "sorted_wrt (<) (?B @ [length w])" using s b by (simp add: sorted_wrt_append)
    moreover have "hd (?B @ [length w]) = 0" using h ne by simp
    moreover have "last (?B @ [length w]) = length w" by simp
    moreover have "2 \<le> length (?B @ [length w])" using len by simp
    ultimately show ?thesis by (simp only: r)
  qed
qed

lemma inbintwo_weights:
  "inbintwo a b inbin w = Inr (wbin, bina, binb) \<Longrightarrow> wbin = bin_weights w inbin"
  by (auto simp: inbintwo_def bnd_def Let_def split: sum.splits)

lemma bin_weights_cover:
  assumes "hd inbin = 0" and "last inbin = length w" and "sorted_wrt (<) inbin"
    and "inbin \<noteq> []"
  shows "sum_list (bin_weights w inbin) = sum_list w"
proof -
  from assms(4) obtain i bs where ib: "inbin = i # bs" by (cases inbin) auto
  from assms(3) have "sorted inbin" by (simp add: strict_sorted_iff)
  then have "sorted (i # bs)" by (simp only: ib)
  then have "sum_list (bin_weights w (i # bs)) = sum_list (slice i (last (i # bs)) w)"
    by (rule bin_weights_sum)
  moreover have "i = 0" using assms(1) ib by simp
  moreover have "last (i # bs) = length w" using assms(2) ib by simp
  ultimately have "sum_list (bin_weights w (i # bs)) = sum_list (slice 0 (length w) w)"
    by simp
  then show ?thesis by (simp add: ib slice_def)
qed

lemma weights_of_result:
  assumes "weights_of n weights = Inr w"
  shows "(fst w = [] \<and> snd w = []) \<or> sum_list (fst w) + sum_list (snd w) = 1"
proof -
  from assms obtain v where
    v: "(case weights of
           None \<Rightarrow> (case n of None \<Rightarrow> Inl NameError
                      | Some m \<Rightarrow> Inr (replicate (fst m) 1, replicate (snd m) 1))
         | Some w \<Rightarrow> Inr w) = Inr v"
    by (auto simp: weights_of_def bnd_def split: sum.splits)
  with assms have rest:
    "(if \<not> (positive (fst v) \<and> positive (snd v)) then Inl (AssertionError PositiveWeights)
      else
        (let wtot = sum_list (fst v) + sum_list (snd v)
         in if wtot = 0 \<and> (fst v \<noteq> [] \<or> snd v \<noteq> []) then Inl NonFinite
            else Inr (map (\<lambda>x. x / wtot) (fst v), map (\<lambda>x. x / wtot) (snd v)))) = Inr w"
    by (simp add: weights_of_def bnd_def)
  then have wt: "\<not> (sum_list (fst v) + sum_list (snd v) = 0 \<and> (fst v \<noteq> [] \<or> snd v \<noteq> []))"
    and w: "w = (map (\<lambda>x. x / (sum_list (fst v) + sum_list (snd v))) (fst v),
                 map (\<lambda>x. x / (sum_list (fst v) + sum_list (snd v))) (snd v))"
    by (auto simp: Let_def split: if_splits)
  let ?wtot = "sum_list (fst v) + sum_list (snd v)"
  show ?thesis
  proof (cases "fst v = [] \<and> snd v = []")
    case True
    with w show ?thesis by simp
  next
    case False
    with wt have nz: "?wtot \<noteq> 0" by blast
    from w have "sum_list (fst w) + sum_list (snd w)
        = sum_list (fst v) / ?wtot + sum_list (snd v) / ?wtot"
      by (simp add: sum_list_divide)
    also have "\<dots> = ?wtot / ?wtot" by (simp only: add_divide_distrib)
    also have "\<dots> = 1" using nz by simp
    finally show ?thesis by simp
  qed
qed

lemma weights_of_given:
  assumes "weights_of n (Some v) = Inr w"
  shows "w = (map (\<lambda>x. x / (sum_list (fst v) + sum_list (snd v))) (fst v),
              map (\<lambda>x. x / (sum_list (fst v) + sum_list (snd v))) (snd v))"
  using assms
  by (auto simp: weights_of_def bnd_def Let_def split: if_splits)

lemma binbounds_nonempty:
  assumes "binbounds perm nbins w = Inr inbin"
  shows "w \<noteq> []"
proof
  assume "w = []"
  then have "bounds_loop w t 0 [] = []" for t by (simp add: bounds_loop_stop)
  with assms show False
    by (auto simp: binbounds_def Let_def split: if_splits)
qed

text \<open>
  Claim C7. Whenever \<^verbatim>\<open>equierrs\<close> returns, the weights that it has binned are
  those of \<open>weights_of\<close>, the caller's weights divided by their joint total. For each
  subpopulation the bounds that \<^verbatim>\<open>binbounds\<close> has returned start at 0, end at the
  number of the weights and increase strictly, so that consecutive bins share a bound and
  neither overlap nor leave a gap; \<^verbatim>\<open>inbintwo\<close> has been run on these bounds and
  weights and has given the diagram that is drawn; the weights of the bins sum to the
  total of the weights that were binned, so that the bins of both subpopulations weigh 1
  together; and the two numbers returned count these bins.
\<close>

theorem equierrs_bins_cover:
  assumes "equierrs plot n r s nbins perms weights = Inr (d, counts)"
  shows "\<exists>w0 w1 inbin0 inbin1 wbin0 wbin1.
       weights_of n weights = Inr (w0, w1)
     \<and> (\<forall>v. weights = Some v \<longrightarrow>
          w0 = map (\<lambda>x. x / (sum_list (fst v) + sum_list (snd v))) (fst v)
          \<and> w1 = map (\<lambda>x. x / (sum_list (fst v) + sum_list (snd v))) (snd v))
     \<and> binbounds (fst perms) nbins w0 = Inr inbin0
     \<and> binbounds (snd perms) nbins w1 = Inr inbin1
     \<and> hd inbin0 = 0 \<and> last inbin0 = length w0 \<and> sorted_wrt (<) inbin0
     \<and> hd inbin1 = 0 \<and> last inbin1 = length w1 \<and> sorted_wrt (<) inbin1
     \<and> inbintwo (fst r) (fst s) inbin0 w0 = Inr (wbin0, fst d)
     \<and> inbintwo (snd r) (snd s) inbin1 w1 = Inr (wbin1, snd d)
     \<and> wbin0 = bin_weights w0 inbin0 \<and> wbin1 = bin_weights w1 inbin1
     \<and> sum_list wbin0 = sum_list w0 \<and> sum_list wbin1 = sum_list w1
     \<and> sum_list wbin0 + sum_list wbin1 = 1
     \<and> counts = (length wbin0, length wbin1)"
proof -
  from assms obtain w inbin0 inbin1 wbin0 wbin1 where
    w: "weights_of n weights = Inr w"
    and b0: "binbounds (fst perms) nbins (fst w) = Inr inbin0"
    and b1: "binbounds (snd perms) nbins (snd w) = Inr inbin1"
    and i1: "inbintwo (snd r) (snd s) inbin1 (snd w) = Inr (wbin1, snd d)"
    and i0: "inbintwo (fst r) (fst s) inbin0 (fst w) = Inr (wbin0, fst d)"
    and c: "counts = (length inbin0 - 1, length inbin1 - 1)"
    by (auto simp: equierrs_def bnd_def split: if_splits sum.splits option.splits prod.splits)
  from binbounds_result [OF b0] have
    p0: "hd inbin0 = 0" "last inbin0 = length (fst w)" "sorted_wrt (<) inbin0"
    and n0: "2 \<le> length inbin0" by simp_all
  from binbounds_result [OF b1] have
    p1: "hd inbin1 = 0" "last inbin1 = length (snd w)" "sorted_wrt (<) inbin1"
    and n1: "2 \<le> length inbin1" by simp_all
  from n0 n1 have ne: "inbin0 \<noteq> []" "inbin1 \<noteq> []" by auto
  have e0: "wbin0 = bin_weights (fst w) inbin0"
    using i0 by (auto simp: inbintwo_def bnd_def Let_def split: sum.splits)
  have e1: "wbin1 = bin_weights (snd w) inbin1"
    using i1 by (auto simp: inbintwo_def bnd_def Let_def split: sum.splits)
  have t0: "sum_list wbin0 = sum_list (fst w)"
    unfolding e0 using p0 ne(1) by (rule bin_weights_cover)
  have t1: "sum_list wbin1 = sum_list (snd w)"
    unfolding e1 using p1 ne(2) by (rule bin_weights_cover)
  from binbounds_nonempty [OF b0] weights_of_result [OF w] have
    "sum_list (fst w) + sum_list (snd w) = 1" by blast
  with t0 t1 have one: "sum_list wbin0 + sum_list wbin1 = 1" by simp
  have l0: "length wbin0 = length inbin0 - 1" and l1: "length wbin1 = length inbin1 - 1"
    using e0 e1 bin_weights_nth [of "fst w" inbin0] bin_weights_nth [of "snd w" inbin1]
    by simp_all
  have given: "\<forall>v. weights = Some v \<longrightarrow>
          fst w = map (\<lambda>x. x / (sum_list (fst v) + sum_list (snd v))) (fst v)
          \<and> snd w = map (\<lambda>x. x / (sum_list (fst v) + sum_list (snd v))) (snd v)"
  proof (intro allI impI)
    fix v assume "weights = Some v"
    with w have "weights_of n (Some v) = Inr w" by simp
    from weights_of_given [OF this] show
      "fst w = map (\<lambda>x. x / (sum_list (fst v) + sum_list (snd v))) (fst v)
       \<and> snd w = map (\<lambda>x. x / (sum_list (fst v) + sum_list (snd v))) (snd v)" by simp
  qed
  from w have w': "weights_of n weights = Inr (fst w, snd w)" by simp
  from c l0 l1 have c': "counts = (length wbin0, length wbin1)" by simp
  from w' given b0 b1 p0 p1 i0 i1 e0 e1 t0 t1 one c' show ?thesis by blast
qed

text \<open>
  A run on nine observations for each subpopulation with three bins requested. The short
  last bin of the subpopulation 0 is merged into the one before it, so that it gets two
  bins; the subpopulation 1 gets three.
\<close>

lemma weights_example:
  "weights_of None (Some ([3, 2, 1, 2, 1, 2, 1, 2, 1], [3, 2, 1, 2, 1, 2, 1, 2, 1]))
   = Inr ([1 / 10, 1 / 15, 1 / 30, 1 / 15, 1 / 30, 1 / 15, 1 / 30, 1 / 15, 1 / 30],
          [1 / 10, 1 / 15, 1 / 30, 1 / 15, 1 / 30, 1 / 15, 1 / 30, 1 / 15, 1 / 30])"
  by code_simp

lemma binbounds_example:
  "binbounds [3, 5, 0, 4, 7, 2, 6, 1, 8] 3
     [1 / 10, 1 / 15, 1 / 30, 1 / 15, 1 / 30, 1 / 15, 1 / 30, 1 / 15, 1 / 30] = Inr [0, 4, 9]"
  by (simp add: binbounds_def slice_to_def threshold_def ratio_gt_def Let_def
      bounds_loop_step bounds_loop_stop grow_step grow_stop power2_eq_square)

lemma binbounds_example1:
  "binbounds [2, 5, 0, 4, 7, 3, 6, 1, 8] 3
     [1 / 10, 1 / 15, 1 / 30, 1 / 15, 1 / 30, 1 / 15, 1 / 30, 1 / 15, 1 / 30] = Inr [0, 3, 6, 9]"
  by (simp add: binbounds_def slice_to_def threshold_def ratio_gt_def Let_def
      bounds_loop_step bounds_loop_stop grow_step grow_stop power2_eq_square)

lemma inbintwo_example:
  "inbintwo [1, 0, 1, 0, 1, 1, 0, 0, 1] [1, 2, 3, 4, 5, 6, 7, 8, 9] [0, 4, 9]
     [1 / 10, 1 / 15, 1 / 30, 1 / 15, 1 / 30, 1 / 15, 1 / 30, 1 / 15, 1 / 30]
   = Inr ([4 / 15, 7 / 30], [Avg (1 / 2), Avg (4 / 7)], [Avg (9 / 4), Avg 7])"
  by code_simp

lemma inbintwo_example1:
  "inbintwo [0, 0, 1, 0, 1, 1, 0, 1, 1] [1, 2, 3, 4, 5, 6, 7, 8, 9] [0, 3, 6, 9]
     [1 / 10, 1 / 15, 1 / 30, 1 / 15, 1 / 30, 1 / 15, 1 / 30, 1 / 15, 1 / 30]
   = Inr ([1 / 5, 1 / 6, 2 / 15], [Avg (1 / 6), Avg (3 / 5), Avg (3 / 4)],
          [Avg (5 / 3), Avg 5, Avg 8])"
  by code_simp

lemma equierrs_example:
  "equierrs (\<lambda>_. None) None
     ([1, 0, 1, 0, 1, 1, 0, 0, 1], [0, 0, 1, 0, 1, 1, 0, 1, 1])
     ([1, 2, 3, 4, 5, 6, 7, 8, 9], [1, 2, 3, 4, 5, 6, 7, 8, 9]) 3
     ([3, 5, 0, 4, 7, 2, 6, 1, 8], [2, 5, 0, 4, 7, 3, 6, 1, 8])
     (Some ([3, 2, 1, 2, 1, 2, 1, 2, 1], [3, 2, 1, 2, 1, 2, 1, 2, 1]))
   = Inr ((([Avg (1 / 2), Avg (4 / 7)], [Avg (9 / 4), Avg 7]),
           ([Avg (1 / 6), Avg (3 / 5), Avg (3 / 4)], [Avg (5 / 3), Avg 5, Avg 8])),
          (2, 3))"
  using weights_example binbounds_example binbounds_example1 inbintwo_example inbintwo_example1
  by (simp add: equierrs_def bnd_def)

text \<open>Claim C7 at that run.\<close>

theorem equierrs_bins_cover_witness:
  "equierrs (\<lambda>_. None) None
     ([1, 0, 1, 0, 1, 1, 0, 0, 1], [0, 0, 1, 0, 1, 1, 0, 1, 1])
     ([1, 2, 3, 4, 5, 6, 7, 8, 9], [1, 2, 3, 4, 5, 6, 7, 8, 9]) 3
     ([3, 5, 0, 4, 7, 2, 6, 1, 8], [2, 5, 0, 4, 7, 3, 6, 1, 8])
     (Some ([3, 2, 1, 2, 1, 2, 1, 2, 1], [3, 2, 1, 2, 1, 2, 1, 2, 1]))
   = Inr ((([Avg (1 / 2), Avg (4 / 7)], [Avg (9 / 4), Avg 7]),
           ([Avg (1 / 6), Avg (3 / 5), Avg (3 / 4)], [Avg (5 / 3), Avg 5, Avg 8])),
          (2, 3))
   \<and> (\<exists>w0 w1 wbin0 wbin1.
        weights_of None (Some ([3, 2, 1, 2, 1, 2, 1, 2, 1], [3, 2, 1, 2, 1, 2, 1, 2, 1]))
          = Inr (w0, w1)
        \<and> w0 = map (\<lambda>x. x / 30) [3, 2, 1, 2, 1, 2, 1, 2, 1]
        \<and> w1 = map (\<lambda>x. x / 30) [3, 2, 1, 2, 1, 2, 1, 2, 1]
        \<and> binbounds [3, 5, 0, 4, 7, 2, 6, 1, 8] 3 w0 = Inr [0, 4, 9]
        \<and> binbounds [2, 5, 0, 4, 7, 3, 6, 1, 8] 3 w1 = Inr [0, 3, 6, 9]
        \<and> last [0, 4, 9] = length w0 \<and> last [0, 3, 6, 9] = length w1
        \<and> inbintwo [1, 0, 1, 0, 1, 1, 0, 0, 1] [1, 2, 3, 4, 5, 6, 7, 8, 9] [0, 4, 9] w0
            = Inr (wbin0, [Avg (1 / 2), Avg (4 / 7)], [Avg (9 / 4), Avg 7])
        \<and> inbintwo [0, 0, 1, 0, 1, 1, 0, 1, 1] [1, 2, 3, 4, 5, 6, 7, 8, 9] [0, 3, 6, 9] w1
            = Inr (wbin1, [Avg (1 / 6), Avg (3 / 5), Avg (3 / 4)], [Avg (5 / 3), Avg 5, Avg 8])
        \<and> wbin0 = [4 / 15, 7 / 30] \<and> wbin1 = [1 / 5, 1 / 6, 2 / 15]
        \<and> sum_list wbin0 = sum_list w0 \<and> sum_list wbin1 = sum_list w1
        \<and> sum_list wbin0 + sum_list wbin1 = 1
        \<and> (2, 3) = (length wbin0, length wbin1))"
  using equierrs_bins_cover [OF equierrs_example] equierrs_example
    weights_example binbounds_example binbounds_example1 inbintwo_example inbintwo_example1
  by auto

section \<open>The bins of \<^verbatim>\<open>equiscores\<close>\<close>

lemma exceeds_bound:
  "0 < nbins \<Longrightarrow> exceeds fl qk qmax j nbins \<longleftrightarrow> bin_bound fl qmax nbins j < qk"
  by (simp add: exceeds_def bin_bound_def)

lemma grid_index_le: "grid_index fl qmax nbins x \<le> nbins"
  unfolding grid_index_def
  using length_takeWhile_le [of "\<lambda>j. bin_bound fl qmax nbins j < x" "[0..<nbins]"] by simp

lemma grid_index_ge:
  assumes "\<forall>i<m. bin_bound fl qmax nbins i < x" and "m \<le> nbins"
  shows "m \<le> grid_index fl qmax nbins x"
  unfolding grid_index_def
proof (rule length_takeWhile_less_P_nth)
  fix i assume "i < m"
  with assms show "bin_bound fl qmax nbins ([0..<nbins] ! i) < x" by simp
next
  from assms(2) show "m \<le> length [0..<nbins]" by simp
qed

lemma grid_index_below:
  assumes "i < grid_index fl qmax nbins x"
  shows "bin_bound fl qmax nbins i < x"
proof -
  let ?P = "\<lambda>j. bin_bound fl qmax nbins j < x"
  from assms have i: "i < length (takeWhile ?P [0..<nbins])" by (simp add: grid_index_def)
  then have "takeWhile ?P [0..<nbins] ! i \<in> set (takeWhile ?P [0..<nbins])" by (rule nth_mem)
  then have "?P (takeWhile ?P [0..<nbins] ! i)" by (rule set_takeWhileD [THEN conjunct2])
  moreover have "takeWhile ?P [0..<nbins] ! i = [0..<nbins] ! i" using i by (rule takeWhile_nth)
  moreover have "i < nbins"
    using i length_takeWhile_le [of ?P "[0..<nbins]"] by simp
  ultimately show ?thesis by simp
qed

lemma grid_index_eq:
  assumes "\<forall>i<m. bin_bound fl qmax nbins i < x" and "m < nbins"
    and "\<not> bin_bound fl qmax nbins m < x"
  shows "grid_index fl qmax nbins x = m"
proof -
  from assms(1,2) have "m \<le> grid_index fl qmax nbins x" by (simp add: grid_index_ge)
  moreover have "\<not> m < grid_index fl qmax nbins x"
    using grid_index_below [of m fl qmax nbins x] assms(3) by blast
  ultimately show ?thesis by simp
qed

lemma members_none:
  "\<forall>x \<in> set q. grid_index fl qmax nbins x \<noteq> m \<Longrightarrow> members fl qmax nbins q v m = []"
  by (auto simp: members_def filter_empty_conv dest: set_zip_leftD)

lemma members_step:
  "k < length v \<Longrightarrow>
     members fl qmax nbins (qk # qs) (drop k v) m
       = (if grid_index fl qmax nbins qk = m then [v ! k] else [])
         @ members fl qmax nbins qs (drop (Suc k) v) m"
  by (simp add: members_def Cons_nth_drop_Suc [symmetric])

lemma bump_nth:
  "j < length xs \<Longrightarrow> (xs[j := xs ! j + v]) ! m = xs ! m + (if j = m then v else (0 :: real))"
  by (cases "j = m") simp_all

lemma members_sum_step:
  assumes "k < length v" and "grid_index fl qmax nbins qk = j"
  shows "sum_list (members fl qmax nbins (qk # qs) (drop k v) m)
       = (if j = m then v ! k else 0) + sum_list (members fl qmax nbins qs (drop (Suc k) v) m)"
  using assms by (simp add: members_step)

lemma bintwo_loop_grid:
  assumes "sorted q" and "j < nbins"
    and "\<forall>x \<in> set q. \<forall>i<j. bin_bound fl qmax nbins i < x"
    and "successively (\<lambda>i j. j \<le> Suc i) (j # map (grid_index fl qmax nbins) q)"
    and "length bina = nbins" and "length binb = nbins" and "length wbin = nbins"
    and "bintwo_loop fl nbins a b qmax w k q j (bina, binb, wbin) = Inr (bina', binb', wbin')"
    and "m < nbins"
  shows "wbin' ! m = wbin ! m + sum_list (members fl qmax nbins q (drop k w) m)
       \<and> bina' ! m = bina ! m + sum_list (members fl qmax nbins q (drop k (map2 (*) w a)) m)
       \<and> binb' ! m = binb ! m + sum_list (members fl qmax nbins q (drop k (map2 (*) w b)) m)"
  using assms(1-8)
proof (induction q arbitrary: k j bina binb wbin)
  case Nil
  then show ?case by (simp add: members_def)
next
  case (Cons qk qs)
  let ?g = "grid_index fl qmax nbins"
  let ?bd = "bin_bound fl qmax nbins"
  let ?j = "if exceeds fl qk qmax j nbins then j + 1 else j"
  from Cons.prems(2) have pos: "0 < nbins" by simp
  from Cons.prems(1) have sq: "sorted qs" and ge: "\<forall>x \<in> set qs. qk \<le> x" by simp_all
  from Cons.prems(3) have low: "\<forall>i<j. ?bd i < qk" by simp
  from Cons.prems(4) have gj: "?g qk \<le> Suc j"
    and succ: "successively (\<lambda>i j. j \<le> Suc i) (?g qk # map ?g qs)" by simp_all
  have ex: "exceeds fl qk qmax j nbins \<longleftrightarrow> ?bd j < qk" using pos by (rule exceeds_bound)
  have above: "\<forall>i<?j. ?bd i < qk"
  proof (intro allI impI)
    fix i assume "i < ?j"
    then have "i < j \<or> (i = j \<and> exceeds fl qk qmax j nbins)" by (auto split: if_splits)
    with low ex show "?bd i < qk" by blast
  qed
  have above_rest: "\<forall>x \<in> set qs. \<forall>i<?j. ?bd i < x"
  proof (intro ballI allI impI)
    fix x i assume "x \<in> set qs" and "i < ?j"
    with above ge have "?bd i < qk" and "qk \<le> x" by simp_all
    then show "?bd i < x" by simp
  qed
  show ?case
  proof (cases "?j = nbins")
    case True
    with Cons.prems(8) have res: "bina' = bina" "binb' = binb" "wbin' = wbin"
      by (simp_all add: Let_def)
    have "\<forall>x \<in> set (qk # qs). ?g x \<noteq> m"
    proof
      fix x assume "x \<in> set (qk # qs)"
      with above above_rest have "\<forall>i<nbins. ?bd i < x" using True by auto
      then have "nbins \<le> ?g x" by (simp add: grid_index_ge)
      with assms(9) show "?g x \<noteq> m" by simp
    qed
    then have "members fl qmax nbins (qk # qs) v m = []" for v by (rule members_none)
    with res show ?thesis by simp
  next
    case False
    with Cons.prems(2) have jn: "?j < nbins" by (simp split: if_splits)
    from Cons.prems(8) False have k: "k < length w" "k < length a" "k < length b"
      by (simp_all add: Let_def split: if_splits)
    from Cons.prems(8) False k have rec:
      "bintwo_loop fl nbins a b qmax w (Suc k) qs ?j
         (bina[?j := bina ! ?j + w ! k * a ! k], binb[?j := binb ! ?j + w ! k * b ! k],
          wbin[?j := wbin ! ?j + w ! k]) = Inr (bina', binb', wbin')"
      by (simp add: Let_def split: if_splits)
    have gq: "?g qk = ?j"
    proof (cases "exceeds fl qk qmax j nbins")
      case True
      with above jn have "j + 1 \<le> ?g qk" by (simp add: grid_index_ge)
      with gj True show ?thesis by simp
    next
      case False
      with ex have "\<not> ?bd j < qk" by simp
      with low Cons.prems(2) have "?g qk = j" by (simp add: grid_index_eq)
      with False show ?thesis by simp
    qed
    from succ gq have succ': "successively (\<lambda>i j. j \<le> Suc i) (?j # map ?g qs)" by simp
    have la: "length (bina[?j := bina ! ?j + w ! k * a ! k]) = nbins"
      and lb: "length (binb[?j := binb ! ?j + w ! k * b ! k]) = nbins"
      and lw: "length (wbin[?j := wbin ! ?j + w ! k]) = nbins"
      using Cons.prems(5,6,7) by simp_all
    note ih = Cons.IH [OF sq jn above_rest succ' la lb lw rec]
    have ja: "?j < length bina" and jb: "?j < length binb" and jw: "?j < length wbin"
      using jn Cons.prems(5,6,7) by simp_all
    have kwa: "k < length (map2 (*) w a)" and kwb: "k < length (map2 (*) w b)"
      using k by simp_all
    have nwa: "map2 (*) w a ! k = w ! k * a ! k" and nwb: "map2 (*) w b ! k = w ! k * b ! k"
      using k by simp_all
    have w_eq: "wbin' ! m = wbin ! m + sum_list (members fl qmax nbins (qk # qs) (drop k w) m)"
    proof -
      from ih have "wbin' ! m = (wbin[?j := wbin ! ?j + w ! k]) ! m
          + sum_list (members fl qmax nbins qs (drop (Suc k) w) m)" by (rule conjunct1)
      also have "(wbin[?j := wbin ! ?j + w ! k]) ! m = wbin ! m + (if ?j = m then w ! k else 0)"
        using jw by (rule bump_nth)
      finally show ?thesis
        using members_sum_step [OF k(1) gq, of qs m] by simp
    qed
    have a_eq: "bina' ! m = bina ! m
        + sum_list (members fl qmax nbins (qk # qs) (drop k (map2 (*) w a)) m)"
    proof -
      from ih have "bina' ! m = (bina[?j := bina ! ?j + w ! k * a ! k]) ! m
          + sum_list (members fl qmax nbins qs (drop (Suc k) (map2 (*) w a)) m)" by simp
      also have "(bina[?j := bina ! ?j + w ! k * a ! k]) ! m
          = bina ! m + (if ?j = m then w ! k * a ! k else 0)"
        using ja by (rule bump_nth)
      finally show ?thesis
        using members_sum_step [OF kwa gq, of qs m] nwa by simp
    qed
    have b_eq: "binb' ! m = binb ! m
        + sum_list (members fl qmax nbins (qk # qs) (drop k (map2 (*) w b)) m)"
    proof -
      from ih have "binb' ! m = (binb[?j := binb ! ?j + w ! k * b ! k]) ! m
          + sum_list (members fl qmax nbins qs (drop (Suc k) (map2 (*) w b)) m)" by simp
      also have "(binb[?j := binb ! ?j + w ! k * b ! k]) ! m
          = binb ! m + (if ?j = m then w ! k * b ! k else 0)"
        using jb by (rule bump_nth)
      finally show ?thesis
        using members_sum_step [OF kwb gq, of qs m] nwb by simp
    qed
    from w_eq a_eq b_eq show ?thesis by blast
  qed
qed

lemma bintwo_grid:
  assumes "bintwo fl nbins a b q (last q) w = Inr (wbin, bina, binb)"
    and "sorted q" and "no_skip fl (last q) (nat nbins) q"
  shows "bina = grid_bins fl (nat nbins) a q w \<and> binb = grid_bins fl (nat nbins) b q w"
proof -
  let ?n = "nat nbins"
  let ?z = "replicate ?n (0 :: real)"
  let ?mem = "members fl (last q) ?n q"
  from assms(1) obtain xa xb xw where
    loop: "bintwo_loop fl ?n a b (last q) w 0 q 0 (?z, ?z, ?z) = Inr (xa, xb, xw)"
    and res: "bina = map2 average xa xw" "binb = map2 average xb xw"
    by (auto simp: bintwo_def bnd_def Let_def split: if_splits sum.splits prod.splits)
  from bintwo_loop_length [OF loop] have
    len: "length xa = ?n" "length xb = ?n" "length xw = ?n" by simp_all
  have sums: "xw ! m = sum_list (?mem w m) \<and> xa ! m = sum_list (?mem (map2 (*) w a) m)
      \<and> xb ! m = sum_list (?mem (map2 (*) w b) m)" if m: "m < ?n" for m
  proof -
    from m have pos: "0 < ?n" by simp
    have low: "\<forall>x \<in> set q. \<forall>i<0. bin_bound fl (last q) ?n i < x" by simp
    have succ: "successively (\<lambda>i j. j \<le> Suc i) (0 # map (grid_index fl (last q) ?n) q)"
      using assms(3) by (simp add: no_skip_def)
    have lz: "length ?z = ?n" by simp
    from bintwo_loop_grid [OF assms(2) pos low succ lz lz lz loop m] m show ?thesis by simp
  qed
  have a: "bina = grid_bins fl ?n a q w"
  proof (rule nth_equalityI)
    show "length bina = length (grid_bins fl ?n a q w)" using res len by (simp add: grid_bins_def)
  next
    fix i assume "i < length bina"
    with res len have i: "i < ?n" by simp
    with sums [OF i] res len show "bina ! i = grid_bins fl ?n a q w ! i"
      by (simp add: grid_bins_def)
  qed
  have b: "binb = grid_bins fl ?n b q w"
  proof (rule nth_equalityI)
    show "length binb = length (grid_bins fl ?n b q w)" using res len by (simp add: grid_bins_def)
  next
    fix i assume "i < length binb"
    with res len have i: "i < ?n" by simp
    with sums [OF i] res len show "binb ! i = grid_bins fl ?n b q w ! i"
      by (simp add: grid_bins_def)
  qed
  from a b show ?thesis by simp
qed

lemma equiscores_bins_grid:
  assumes "equiscores_bins fl nbins rj sj wj = Inr dj" and "sorted sj"
  shows "length (fst dj) = nat nbins \<and> length (snd dj) = nat nbins
       \<and> (no_skip fl (last sj) (nat nbins) sj \<longrightarrow>
            dj = (grid_bins fl (nat nbins) rj sj wj, grid_bins fl (nat nbins) sj sj wj))"
proof -
  from assms(1) obtain wbin where
    b: "bintwo fl nbins rj sj sj (last sj) wj = Inr (wbin, fst dj, snd dj)"
    by (auto simp: equiscores_bins_def bnd_def split: if_splits sum.splits)
  from bintwo_result [OF b] have
    len: "length (fst dj) = nat nbins \<and> length (snd dj) = nat nbins" by simp
  have "dj = (grid_bins fl (nat nbins) rj sj wj, grid_bins fl (nat nbins) sj sj wj)"
    if "no_skip fl (last sj) (nat nbins) sj"
    using bintwo_grid [OF b assms(2) that] by (simp add: prod_eq_iff)
  with len show ?thesis by blast
qed

text \<open>
  Claim C6, as amended. Whenever \<^verbatim>\<open>equiscores\<close> returns, each of the four lists that
  it draws has exactly \<^verbatim>\<open>nbins\<close> entries. The bins follow the grid of the bounds
  \<^verbatim>\<open>s[j][-1] * (i + 1) / nbins\<close>, which starts at 0 and not at the least score:
  when the scores of a subpopulation skip no interval of that grid, the bin \<open>i\<close> holds
  exactly the observations whose score is above the bounds of the bins before \<open>i\<close>
  and not above the bound of the bin \<open>i\<close>, and the two lists of the subpopulation hold,
  for each bin, the averages of the responses and of the scores of these observations with
  the weights of \<open>weights_of\<close>, or \<^verbatim>\<open>np.nan\<close> where the bin has no weight. An
  observation whose score is above every bound, as the rounding of the last bound allows,
  is in no bin. This holds for every rounding \<open>fl\<close>. Which bin an observation gets when
  the scores skip an interval is not stated here.
\<close>

theorem equiscores_bins:
  assumes "equiscores fl plot n r s nbins weights = Inr d"
  shows "\<exists>w0 w1. weights_of n weights = Inr (w0, w1)
       \<and> length (fst (fst d)) = nat nbins \<and> length (snd (fst d)) = nat nbins
       \<and> length (fst (snd d)) = nat nbins \<and> length (snd (snd d)) = nat nbins
       \<and> (no_skip fl (last (fst s)) (nat nbins) (fst s) \<longrightarrow>
            fst d = (grid_bins fl (nat nbins) (fst r) (fst s) w0,
                     grid_bins fl (nat nbins) (fst s) (fst s) w0))
       \<and> (no_skip fl (last (snd s)) (nat nbins) (snd s) \<longrightarrow>
            snd d = (grid_bins fl (nat nbins) (snd r) (snd s) w1,
                     grid_bins fl (nat nbins) (snd s) (snd s) w1))"
proof -
  from assms have srt: "successively (\<le>) (fst s)" "successively (\<le>) (snd s)"
    by (auto simp: equiscores_def split: if_splits)
  then have s0: "sorted (fst s)" and s1: "sorted (snd s)"
    by (simp_all add: successively_conv_sorted_wrt)
  from assms srt obtain w where
    w: "weights_of n weights = Inr w"
    and d1: "equiscores_bins fl nbins (snd r) (snd s) (snd w) = Inr (snd d)"
    and d0: "equiscores_bins fl nbins (fst r) (fst s) (fst w) = Inr (fst d)"
    by (auto simp: equiscores_def bnd_def split: if_splits sum.splits option.splits)
  from w have "weights_of n weights = Inr (fst w, snd w)" by simp
  with equiscores_bins_grid [OF d0 s0] equiscores_bins_grid [OF d1 s1] show ?thesis by blast
qed

text \<open>
  A run with two bins. The scores \<open>[10, 12, 20]\<close> of the subpopulation 0 have the
  bounds 10 and 20: the first bin holds the score 10 only, since 12 exceeds 20 / 2.
\<close>

lemma equiscores_example:
  "equiscores (\<lambda>x. x) (\<lambda>_. None) None ([1, 0, 1], [0, 1, 1]) ([10, 12, 20], [5, 9, 10]) 2
     (Some ([1, 1, 1], [1, 1, 1]))
   = Inr (([Avg 1, Avg (1 / 2)], [Avg 10, Avg 16]), ([Avg 0, Avg 1], [Avg 5, Avg (19 / 2)]))"
  by code_simp

text \<open>The amended claim C6 at that run, in exact arithmetic.\<close>

theorem equiscores_bins_witness:
  "equiscores (\<lambda>x. x) (\<lambda>_. None) None ([1, 0, 1], [0, 1, 1]) ([10, 12, 20], [5, 9, 10]) 2
     (Some ([1, 1, 1], [1, 1, 1]))
   = Inr (([Avg 1, Avg (1 / 2)], [Avg 10, Avg 16]), ([Avg 0, Avg 1], [Avg 5, Avg (19 / 2)]))
   \<and> no_skip (\<lambda>x. x) (last [10, 12, 20]) (nat 2) [10, 12, 20]
   \<and> no_skip (\<lambda>x. x) (last [5, 9, 10]) (nat 2) [5, 9, 10]
   \<and> weights_of None (Some ([1, 1, 1], [1, 1, 1]))
       = Inr ([1 / 6, 1 / 6, 1 / 6], [1 / 6, 1 / 6, 1 / 6])
   \<and> ([Avg 1, Avg (1 / 2)], [Avg 10, Avg 16])
       = (grid_bins (\<lambda>x. x) (nat 2) [1, 0, 1] [10, 12, 20] [1 / 6, 1 / 6, 1 / 6],
          grid_bins (\<lambda>x. x) (nat 2) [10, 12, 20] [10, 12, 20] [1 / 6, 1 / 6, 1 / 6])
   \<and> ([Avg 0, Avg 1], [Avg 5, Avg (19 / 2)])
       = (grid_bins (\<lambda>x. x) (nat 2) [0, 1, 1] [5, 9, 10] [1 / 6, 1 / 6, 1 / 6],
          grid_bins (\<lambda>x. x) (nat 2) [5, 9, 10] [5, 9, 10] [1 / 6, 1 / 6, 1 / 6])"
proof -
  have n0: "no_skip (\<lambda>x. x) (last [10, 12, 20]) (nat 2) [10, 12, 20]" by code_simp
  have n1: "no_skip (\<lambda>x. x) (last [5, 9, 10]) (nat 2) [5, 9, 10]" by code_simp
  have w: "weights_of None (Some ([1, 1, 1], [1, 1, 1]))
       = Inr ([1 / 6, 1 / 6, 1 / 6], [1 / 6, 1 / 6, 1 / 6])" by code_simp
  from equiscores_bins [OF equiscores_example] n0 n1 w equiscores_example
  show ?thesis by auto
qed

text \<open>
  Claim C6 as the specification states it fails at that run: the two intervals of equal
  width of the interval from 10 to 20 meet at 15, so that the scores 10 and 12 share the
  first bin, with average score 11, and the second bin has the average score 20; the source
  returns the average scores 10 and 16.
\<close>

theorem equiscores_bins_counterexample:
  "equiscores (\<lambda>x. x) (\<lambda>_. None) None ([1, 0, 1], [0, 1, 1]) ([10, 12, 20], [5, 9, 10]) 2
     (Some ([1, 1, 1], [1, 1, 1]))
   = Inr (([Avg 1, Avg (1 / 2)], [Avg 10, Avg 16]), ([Avg 0, Avg 1], [Avg 5, Avg (19 / 2)]))
   \<and> spec_bins 2 [1, 0, 1] [10, 12, 20] [1 / 6, 1 / 6, 1 / 6] = [Avg (1 / 2), Avg 1]
   \<and> spec_bins 2 [10, 12, 20] [10, 12, 20] [1 / 6, 1 / 6, 1 / 6] = [Avg 11, Avg 20]
   \<and> [Avg 10, Avg 16] \<noteq> [Avg 11, Avg 20]"
proof -
  have "spec_bins 2 [1, 0, 1] [10, 12, 20] [1 / 6, 1 / 6, 1 / 6] = [Avg (1 / 2), Avg 1]"
    by code_simp
  moreover have "spec_bins 2 [10, 12, 20] [10, 12, 20] [1 / 6, 1 / 6, 1 / 6] = [Avg 11, Avg 20]"
    by code_simp
  ultimately show ?thesis using equiscores_example by simp
qed

text \<open>
  The effect of the rounding. With three bins and the greatest score 0.7, float64 rounds
  the product of 0.7 and 3 below 2.1, and the last bound lies below the greatest score.
  With a rounding that moves 2.1 down, the observation with the greatest score has the
  index 3 and enters no bin, and the last bin loses it; in exact arithmetic it is in the
  last bin.
\<close>

lemma equiscores_rounding_example:
  "equiscores (\<lambda>x. if x = 21 / 10 then 2099 / 1000 else x) (\<lambda>_. None) None
     ([1, 0, 1], [1, 0, 1]) ([3 / 10, 1 / 2, 7 / 10], [3 / 10, 1 / 2, 7 / 10]) 3
     (Some ([1, 1, 1], [1, 1, 1]))
   = Inr (([NaN, Avg 1, Avg 0], [NaN, Avg (3 / 10), Avg (1 / 2)]),
          ([NaN, Avg 1, Avg 0], [NaN, Avg (3 / 10), Avg (1 / 2)]))
   \<and> equiscores (\<lambda>x. x) (\<lambda>_. None) None
     ([1, 0, 1], [1, 0, 1]) ([3 / 10, 1 / 2, 7 / 10], [3 / 10, 1 / 2, 7 / 10]) 3
     (Some ([1, 1, 1], [1, 1, 1]))
   = Inr (([NaN, Avg 1, Avg (1 / 2)], [NaN, Avg (3 / 10), Avg (3 / 5)]),
          ([NaN, Avg 1, Avg (1 / 2)], [NaN, Avg (3 / 10), Avg (3 / 5)]))
   \<and> map (grid_index (\<lambda>x. if x = 21 / 10 then 2099 / 1000 else x) (7 / 10) 3)
         [3 / 10, 1 / 2, 7 / 10] = [1, 2, 3]"
  by code_simp


end
